theory Spec2Isabelle
  imports Main
begin

section \<open>Characters and Python string primitives\<close>

text \<open>
  Python strings are sequences of code points. The model uses \<^typ>\<open>string\<close>, whose
  characters are the code points U+0000 to U+00FF; every character class below is the
  class Python 3 assigns to these code points (\<open>\w\<close>, \<open>\d\<close> and \<open>str.lower\<close> are the
  Unicode-aware ones of \<open>re\<close> and \<open>str\<close>).
\<close>

definition code_point :: "char \<Rightarrow> nat" where
  "code_point c = of_char c"

definition is_ascii_alpha :: "char \<Rightarrow> bool" where
  "is_ascii_alpha c =
     (let n = code_point c in (65 \<le> n \<and> n \<le> 90) \<or> (97 \<le> n \<and> n \<le> 122))"

definition is_digit :: "char \<Rightarrow> bool" where
  "is_digit c = (let n = code_point c in 48 \<le> n \<and> n \<le> 57)"

text \<open>The class \<open>\w\<close> of a Python 3 string pattern, on the code points below 256.\<close>

definition is_word_char :: "char \<Rightarrow> bool" where
  "is_word_char c =
     (let n = code_point c in
        (48 \<le> n \<and> n \<le> 57) \<or> (65 \<le> n \<and> n \<le> 90) \<or> n = 95 \<or> (97 \<le> n \<and> n \<le> 122) \<or>
        n = 170 \<or> n = 178 \<or> n = 179 \<or> n = 181 \<or> n = 185 \<or> n = 186 \<or>
        (188 \<le> n \<and> n \<le> 190) \<or> (192 \<le> n \<and> n \<le> 214) \<or> (216 \<le> n \<and> n \<le> 246) \<or>
        248 \<le> n)"

text \<open>\<open>str.lower\<close> on one code point below 256.\<close>

definition lower_char :: "char \<Rightarrow> char" where
  "lower_char c =
     (let n = code_point c in
        if (65 \<le> n \<and> n \<le> 90) \<or> (192 \<le> n \<and> n \<le> 214) \<or> (216 \<le> n \<and> n \<le> 222)
        then char_of (n + 32) else c)"

definition lower :: "string \<Rightarrow> string" where
  "lower s = map lower_char s"

text \<open>The class \<open>[ \t\r\n]\<close>.\<close>

definition is_html_space :: "char \<Rightarrow> bool" where
  "is_html_space c = (c = CHR '' '' \<or> c = CHR 0x09 \<or> c = CHR 0x0D \<or> c = CHR 0x0A)"

text \<open>\<open>'%d' % n\<close> for a list index, and \<open>int(s)\<close> on a string of decimal digits.\<close>

fun format_d :: "nat \<Rightarrow> string" where
  "format_d n =
     (if n < 10 then [char_of (48 + n)]
      else format_d (n div 10) @ [char_of (48 + n mod 10)])"

declare format_d.simps [simp del]

definition py_int :: "string \<Rightarrow> nat" where
  "py_int s = foldl (\<lambda>a c. 10 * a + (code_point c - 48)) 0 s"

text \<open>
  An anchored alternation followed by \<open>$\<close>, compiled with \<open>re.IGNORECASE\<close> and applied
  with \<open>match\<close>: some alternative is a prefix of the subject up to case, and what
  follows is the end of the subject or one final newline.
\<close>

definition re_match_alts :: "string list \<Rightarrow> string \<Rightarrow> bool" where
  "re_match_alts alts s =
     list_ex (\<lambda>p. lower (take (length p) s) = p \<and>
                   (drop (length p) s = [] \<or> drop (length p) s = [CHR 0x0A])) alts"

section \<open>The content model\<close>

datatype error = TypeError | IndexError

datatype content_kind =
  HTML | JS | JS_STR_CHARS | URI | TRUSTED_RESOURCE_URI | ATTRIBUTES | CSS | TEXT

text \<open>\<open>CONTENT_KIND\<close> numbers its members \<open>range(1, 9)\<close>.\<close>

fun kind_code :: "content_kind \<Rightarrow> nat" where
  "kind_code HTML = 1"
| "kind_code JS = 2"
| "kind_code JS_STR_CHARS = 3"
| "kind_code URI = 4"
| "kind_code TRUSTED_RESOURCE_URI = 5"
| "kind_code ATTRIBUTES = 6"
| "kind_code CSS = 7"
| "kind_code TEXT = 8"

datatype dir = LTR | NEUTRAL | RTL

text \<open>The class \<open>IActuallyUnderstandSoyTypeSafetyAndHaveSecurityApproval\<close>.\<close>

record approval =
  justification :: "string option"

definition IActuallyUnderstandSoyTypeSafetyAndHaveSecurityApproval ::
  "string option \<Rightarrow> approval" where
  "IActuallyUnderstandSoyTypeSafetyAndHaveSecurityApproval j =
     (case j of
        None \<Rightarrow> \<lparr>justification = None\<rparr>
      | Some s \<Rightarrow> if s = [] then \<lparr>justification = None\<rparr> else \<lparr>justification = Some s\<rparr>)"

text \<open>The class \<open>SanitizedContent\<close> and its seven subclasses.\<close>

datatype sanitized_class =
  SanitizedContent | SanitizedCss | SanitizedHtml | SanitizedHtmlAttribute | SanitizedJs
| SanitizedJsStrChars | SanitizedUri | SanitizedTrustedResourceUri

text \<open>The class attribute \<open>content_kind\<close>.\<close>

fun class_content_kind :: "sanitized_class \<Rightarrow> content_kind option" where
  "class_content_kind SanitizedContent = None"
| "class_content_kind SanitizedCss = Some CSS"
| "class_content_kind SanitizedHtml = Some HTML"
| "class_content_kind SanitizedHtmlAttribute = Some ATTRIBUTES"
| "class_content_kind SanitizedJs = Some JS"
| "class_content_kind SanitizedJsStrChars = Some JS_STR_CHARS"
| "class_content_kind SanitizedUri = Some URI"
| "class_content_kind SanitizedTrustedResourceUri = Some TRUSTED_RESOURCE_URI"

text \<open>
  An instance: its class and the two attributes \<open>__init__\<close> sets. The content is a
  string, as the data model of the specification has it.
\<close>

record sanitized =
  cls :: sanitized_class
  content :: string
  content_dir :: "dir option"

text \<open>\<open>SanitizedContent.__new__\<close>: \<open>not cls.content_kind\<close> holds of \<open>None\<close> and of 0.\<close>

definition sanitized_new :: "sanitized_class \<Rightarrow> error + unit" where
  "sanitized_new c =
     (if c = SanitizedContent \<or>
         (case class_content_kind c of None \<Rightarrow> True | Some k \<Rightarrow> kind_code k = 0)
      then Inl TypeError else Inr ())"

text \<open>
  \<open>SanitizedContent.__init__\<close>. The approval argument is \<open>None\<close> when the caller passes
  nothing or an object that is not an instance of the approval class.
\<close>

definition sanitized_init ::
  "sanitized_class \<Rightarrow> string \<Rightarrow> dir option \<Rightarrow> approval option \<Rightarrow> error + sanitized" where
  "sanitized_init c cont d appr =
     (case appr of
        None \<Rightarrow> Inl TypeError
      | Some a \<Rightarrow>
          (case justification a of
             None \<Rightarrow> Inl TypeError
           | Some j \<Rightarrow>
               if j = [] \<or> length j < 20 then Inl TypeError
               else Inr \<lparr>cls = c, content = cont, content_dir = d\<rparr>))"

text \<open>
  Calling a class: \<open>__new__\<close>, then the \<open>__init__\<close> of the class. The subclasses for CSS,
  attributes, JS and the two URI kinds take no direction and pass \<open>DIR.LTR\<close> on.
\<close>

definition construct ::
  "sanitized_class \<Rightarrow> string \<Rightarrow> dir option \<Rightarrow> approval option \<Rightarrow> error + sanitized" where
  "construct c cont d appr =
     (case sanitized_new c of
        Inl e \<Rightarrow> Inl e
      | Inr _ \<Rightarrow>
          if c \<in> {SanitizedCss, SanitizedHtmlAttribute, SanitizedJs, SanitizedUri,
                   SanitizedTrustedResourceUri}
          then sanitized_init c cont (Some LTR) appr
          else sanitized_init c cont d appr)"

text \<open>
  The values the public functions receive: \<open>None\<close>, a string, a sanitized instance, or
  any other object, which the functions only ever read through \<open>str\<close>.
\<close>

datatype pyvalue = PyNone | PyStr string | PySanitized sanitized | PyObject string

fun py_str :: "pyvalue \<Rightarrow> string" where
  "py_str PyNone = ''None''"
| "py_str (PyStr s) = s"
| "py_str (PySanitized x) = content x"
| "py_str (PyObject s) = s"

fun get_content_dir :: "pyvalue \<Rightarrow> dir option" where
  "get_content_dir (PySanitized x) = content_dir x"
| "get_content_dir _ = None"

fun is_content_kind :: "pyvalue \<Rightarrow> content_kind \<Rightarrow> bool" where
  "is_content_kind (PySanitized x) k = (class_content_kind (cls x) = Some k)"
| "is_content_kind _ k = False"

definition get_content_of_kind :: "pyvalue \<Rightarrow> content_kind \<Rightarrow> string option" where
  "get_content_of_kind v k =
     (if is_content_kind v k
      then (case v of PySanitized x \<Rightarrow> Some (content x) | _ \<Rightarrow> None)
      else None)"

section \<open>Balancing tags\<close>

definition HTML5_VOID_ELEMENTS :: "string list" where
  "HTML5_VOID_ELEMENTS =
     [''area'', ''base'', ''br'', ''col'', ''command'', ''embed'', ''hr'', ''img'', ''input'',
      ''keygen'', ''link'', ''meta'', ''param'', ''source'', ''track'', ''wbr'']"

text \<open>
  \<open>_HTML5_VOID_ELEMENTS_RE.match\<close>: a \<open><\<close>, one of the names, and a word boundary, which
  after a letter is the end of the subject or a character outside \<open>\w\<close>.
\<close>

definition html5_void_elements_re_match :: "string \<Rightarrow> bool" where
  "html5_void_elements_re_match s =
     (case s of
        [] \<Rightarrow> False
      | c # r \<Rightarrow>
          c = CHR ''<'' \<and>
          list_ex (\<lambda>v. take (length v) r = v \<and>
                        (case drop (length v) r of [] \<Rightarrow> True | d # _ \<Rightarrow> \<not> is_word_char d))
            HTML5_VOID_ELEMENTS)"

text \<open>
  The search of \<open>_balance_tags\<close> for the close tag, from the top of \<open>open_tags\<close> down:
  the argument \<open>Suc i\<close> stands for \<open>index = i\<close>, and 0 for \<open>index = -1\<close>.
\<close>

fun search_open_tags :: "string list \<Rightarrow> string \<Rightarrow> nat \<Rightarrow> nat option" where
  "search_open_tags open_tags tag 0 = None"
| "search_open_tags open_tags tag (Suc i) =
     (if open_tags ! i = tag then Some i else search_open_tags open_tags tag i)"

definition with_tag ::
  "string \<Rightarrow> error + (string list \<times> string list) \<Rightarrow> error + (string list \<times> string list)" where
  "with_tag t r = (case r of Inl e \<Rightarrow> Inl e | Inr (ts, ot) \<Rightarrow> Inr (t # ts, ot))"

text \<open>
  The loop of \<open>_balance_tags\<close> over the tags, from a stack \<open>open_tags\<close>: it returns the
  list \<open>tags\<close> as the loop rewrites it in place, and the stack left at the end. Reading
  \<open>tag[1]\<close> of a string shorter than two raises.
\<close>

fun balance_loop :: "string list \<Rightarrow> string list \<Rightarrow> error + (string list \<times> string list)" where
  "balance_loop open_tags [] = Inr ([], open_tags)"
| "balance_loop open_tags (tag # tags) =
     (if length tag < 2 then Inl IndexError
      else if tag ! 1 = CHR ''/'' then
        (case search_open_tags open_tags tag (length open_tags) of
           None \<Rightarrow> with_tag [] (balance_loop open_tags tags)
         | Some index \<Rightarrow>
             with_tag (concat (rev (drop index open_tags)))
               (balance_loop (take index open_tags) tags))
      else if \<not> html5_void_elements_re_match tag then
        with_tag tag (balance_loop (open_tags @ [''</'' @ drop 1 tag]) tags)
      else with_tag tag (balance_loop open_tags tags))"

definition balance_tags :: "string list \<Rightarrow> error + (string list \<times> string)" where
  "balance_tags tags =
     (case balance_loop [] tags of
        Inl e \<Rightarrow> Inl e
      | Inr (tags', open_tags) \<Rightarrow> Inr (tags', concat (rev open_tags)))"

section \<open>The tag pattern\<close>

text \<open>What a match object gives: the whole match and the two groups.\<close>

record re_match =
  group0 :: string
  group1 :: "string option"
  group2 :: "string option"

text \<open>The class \<open>[\w:-]\<close> of \<open>_TAG_RE\<close>.\<close>

definition is_name_char :: "char \<Rightarrow> bool" where
  "is_name_char c = (is_word_char c \<or> c = CHR '':'' \<or> c = CHR ''-'')"

definition with_char :: "char \<Rightarrow> (string \<times> string) option \<Rightarrow> (string \<times> string) option" where
  "with_char c r = (case r of None \<Rightarrow> None | Some (a, rest) \<Rightarrow> Some (c # a, rest))"

text \<open>
  The attribute part of \<open>_TAG_RE\<close>, \<open>((?:[^>'"]|"[^"]*"|'[^']*')*)>\<close>, as the automaton
  of the expression: outside a quoted value (\<open>None\<close>) the first \<open>>\<close> ends the match,
  inside one (\<open>Some q\<close>) only the quote \<open>q\<close> leaves it, and the end of the subject in
  either state is no match. The result is group 2 and what follows the \<open>>\<close>.
\<close>

fun scan_attrs :: "char option \<Rightarrow> string \<Rightarrow> (string \<times> string) option" where
  "scan_attrs q [] = None"
| "scan_attrs None (c # cs) =
     (if c = CHR ''>'' then Some ([], cs)
      else if c = CHR 0x22 \<or> c = CHR 0x27 then with_char c (scan_attrs (Some c) cs)
      else with_char c (scan_attrs None cs))"
| "scan_attrs (Some q) (c # cs) =
     (if c = q then with_char c (scan_attrs None cs)
      else with_char c (scan_attrs (Some q) cs))"

text \<open>
  The comment alternative after \<open><!--\<close>: \<open>.*?\<close> stops at the first \<open>-->\<close> and crosses
  no newline. The result is the body and what follows the \<open>-->\<close>.
\<close>

fun scan_comment :: "string \<Rightarrow> (string \<times> string) option" where
  "scan_comment [] = None"
| "scan_comment (c # cs) =
     (if take 3 (c # cs) = ''-->'' then Some ([], drop 2 cs)
      else if c = CHR 0x0A then None
      else with_char c (scan_comment cs))"

text \<open>The name part of \<open>_TAG_RE\<close>, \<open>/?[a-z][\w:-]*\<close> under \<open>re.IGNORECASE\<close>: group 1 and the rest.\<close>

definition scan_name :: "string \<Rightarrow> (string \<times> string) option" where
  "scan_name r =
     (case r of
        [] \<Rightarrow> None
      | d # r1 \<Rightarrow>
          if d = CHR ''/'' then
            (case r1 of
               [] \<Rightarrow> None
             | e # r2 \<Rightarrow>
                 if is_ascii_alpha e
                 then Some (d # e # takeWhile is_name_char r2, dropWhile is_name_char r2)
                 else None)
          else if is_ascii_alpha d
          then Some (d # takeWhile is_name_char r1, dropWhile is_name_char r1)
          else None)"

text \<open>The first alternative after the \<open><\<close>: \<open>!--.*?--\<close> and the closing \<open>>\<close>.\<close>

definition tag_re_comment :: "string \<Rightarrow> (re_match \<times> string) option" where
  "tag_re_comment r =
     (if take 3 r = ''!--'' then
        (case scan_comment (drop 3 r) of
           None \<Rightarrow> None
         | Some (b, rest) \<Rightarrow>
             Some (\<lparr>group0 = ''<!--'' @ b @ ''-->'', group1 = None, group2 = None\<rparr>, rest))
      else None)"

text \<open>
  The second alternative after the \<open><\<close>: \<open>!\<close> or the name (group 1), the attributes
  (group 2) and the closing \<open>>\<close>.
\<close>

definition tag_re_markup :: "string \<Rightarrow> (re_match \<times> string) option" where
  "tag_re_markup r =
     (case r of
        [] \<Rightarrow> None
      | d # r1 \<Rightarrow>
          if d = CHR ''!'' then
            (case scan_attrs None r1 of
               None \<Rightarrow> None
             | Some (a, rest) \<Rightarrow>
                 Some (\<lparr>group0 = ''<!'' @ a @ ''>'', group1 = None, group2 = Some a\<rparr>, rest))
          else
            (case scan_name r of
               None \<Rightarrow> None
             | Some (n, r') \<Rightarrow>
                 (case scan_attrs None r' of
                    None \<Rightarrow> None
                  | Some (a, rest) \<Rightarrow>
                      Some (\<lparr>group0 = ''<'' @ n @ a @ ''>'', group1 = Some n,
                             group2 = Some a\<rparr>, rest))))"

text \<open>
  \<open>_TAG_RE\<close> tried at one position, the subject being what is left from there: the match
  and what follows it. At the end of the subject the alternative \<open>\Z\<close> matches the empty
  string.
\<close>

definition tag_re_match_at :: "string \<Rightarrow> (re_match \<times> string) option" where
  "tag_re_match_at s =
     (case s of
        [] \<Rightarrow> Some (\<lparr>group0 = [], group1 = None, group2 = None\<rparr>, [])
      | c # r \<Rightarrow>
          if c \<noteq> CHR ''<'' then None
          else (case tag_re_comment r of Some x \<Rightarrow> Some x | None \<Rightarrow> tag_re_markup r))"

lemma scan_attrs_split: "scan_attrs q s = Some (a, rest) \<Longrightarrow> s = a @ CHR ''>'' # rest"
  by (induction q s arbitrary: a rule: scan_attrs.induct)
     (auto simp: with_char_def split: if_splits option.splits)

lemma scan_comment_split: "scan_comment s = Some (b, rest) \<Longrightarrow> s = b @ ''-->'' @ rest"
proof (induction s arbitrary: b)
  case Nil
  then show ?case by simp
next
  case (Cons c cs)
  show ?case
  proof (cases "take 3 (c # cs) = ''-->''")
    case True
    then have "c # cs = ''-->'' @ drop 2 cs"
      by (metis append_take_drop_id drop_Suc_Cons numeral_3_eq_3 numeral_2_eq_2)
    with True Cons.prems show ?thesis by simp
  next
    case False
    with Cons show ?thesis
      by (auto simp: with_char_def split: if_splits option.splits)
  qed
qed

lemma scan_name_split: "scan_name r = Some (n, r') \<Longrightarrow> r = n @ r'"
  by (auto simp: scan_name_def split: list.splits if_splits)

lemma tag_re_comment_split:
  assumes "tag_re_comment r = Some (m, rest)"
  shows "CHR ''<'' # r = group0 m @ rest"
proof -
  from assms have t: "take 3 r = ''!--''"
    by (auto simp: tag_re_comment_def split: if_splits)
  then have r: "r = ''!--'' @ drop 3 r"
    by (metis append_take_drop_id)
  from assms t obtain b where b: "scan_comment (drop 3 r) = Some (b, rest)"
    and m: "group0 m = ''<!--'' @ b @ ''-->''"
    by (auto simp: tag_re_comment_def split: option.splits)
  from scan_comment_split [OF b] have "drop 3 r = b @ ''-->'' @ rest" .
  with r have "r = ''!--'' @ b @ ''-->'' @ rest" by simp
  with m show ?thesis by simp
qed

lemma tag_re_markup_split:
  assumes "tag_re_markup r = Some (m, rest)"
  shows "CHR ''<'' # r = group0 m @ rest"
  using assms
  by (auto simp: tag_re_markup_def split: list.splits if_splits option.splits
           dest!: scan_attrs_split scan_name_split)

lemma tag_re_match_at_split:
  assumes "tag_re_match_at s = Some (m, rest)"
  shows "s = group0 m @ rest"
  using assms
  by (auto simp: tag_re_match_at_def split: list.splits if_splits option.splits
           dest: tag_re_comment_split tag_re_markup_split)

lemma tag_re_match_at_nonempty:
  assumes "tag_re_match_at s = Some (m, rest)" and "s \<noteq> []"
  shows "group0 m \<noteq> []"
proof (cases s)
  case Nil
  with assms show ?thesis by simp
next
  case (Cons c r)
  with assms show ?thesis
    by (auto simp: tag_re_match_at_def tag_re_comment_def tag_re_markup_def
             split: list.splits if_splits option.splits)
qed

lemma tag_re_match_at_length:
  assumes "tag_re_match_at s = Some (m, rest)" and "s \<noteq> []"
  shows "length rest < length s"
proof -
  have "length s = length (group0 m) + length rest"
    using tag_re_match_at_split [OF assms(1)] by (metis length_append)
  moreover have "0 < length (group0 m)"
    using tag_re_match_at_nonempty [OF assms] by simp
  ultimately show ?thesis by simp
qed

text \<open>
  \<open>_TAG_RE.finditer\<close>: the matches from left to right, each with the text between the
  end of the match before it and its own start (\<open>html[start:offset]\<close> in the loop of
  \<open>html_to_text\<close>). The last match is the empty one at the end of the subject.
\<close>

function tag_re_finditer :: "string \<Rightarrow> string \<Rightarrow> (string \<times> re_match) list" where
  "tag_re_finditer gap s =
     (case tag_re_match_at s of
        Some (m, rest) \<Rightarrow> (gap, m) # (if s = [] then [] else tag_re_finditer [] rest)
      | None \<Rightarrow> (case s of [] \<Rightarrow> [] | c # cs \<Rightarrow> tag_re_finditer (gap @ [c]) cs))"
  by pat_completeness auto
termination
  by (relation "measure (\<lambda>(gap, s). length s)") (auto dest: tag_re_match_at_length)

declare tag_re_finditer.simps [simp del]

section \<open>The whitelist filter\<close>

text \<open>
  Modelled from the spec: \<open>generated_sanitize._HTML_TAG_REGEX\<close>, a constant of the
  generated module, which is not among the sources. Sections 4.3 and 4.4 of the
  specification have the filter and \<open>html_to_text\<close> scan the same generic tag syntax, so
  the pattern is the tag alternative of \<open>_TAG_RE\<close> (without its empty match at the end
  of the subject). Group 1 is the tag name without the slash of a closing tag:
  \<open>_tag_sub_handler\<close> looks for the slash in \<open>tag[1]\<close> and looks the name up in the
  whitelist.
\<close>

definition html_tag_regex_match_at :: "string \<Rightarrow> (re_match \<times> string) option" where
  "html_tag_regex_match_at s =
     (case s of
        [] \<Rightarrow> None
      | c # r \<Rightarrow>
          (case tag_re_match_at s of
             None \<Rightarrow> None
           | Some (m, rest) \<Rightarrow>
               Some (m\<lparr>group1 :=
                         (case group1 m of
                            None \<Rightarrow> None
                          | Some n \<Rightarrow> Some (if take 1 n = ''/'' then drop 1 n else n))\<rparr>,
                     rest)))"

lemma html_tag_regex_match_at_length:
  "html_tag_regex_match_at s = Some (m, rest) \<Longrightarrow> length rest < length s"
  by (auto simp: html_tag_regex_match_at_def split: list.splits option.splits
           dest: tag_re_match_at_length)

text \<open>
  \<open>_tag_sub_handler\<close>: the replacement for one match, and the list \<open>tags\<close> after it.
  Reading \<open>tag[1]\<close> of a match shorter than two raises.
\<close>

definition tag_sub_handler ::
  "string list \<Rightarrow> string list \<Rightarrow> re_match \<Rightarrow> error + (string \<times> string list)" where
  "tag_sub_handler tag_whitelist tags m =
     (let tag = group0 m;
          name = (case group1 m of None \<Rightarrow> None
                  | Some n \<Rightarrow> if n \<noteq> [] then Some (lower n) else Some n)
      in case name of
           None \<Rightarrow> Inr ([], tags)
         | Some nm \<Rightarrow>
             if nm \<in> set tag_whitelist then
               (if length tag < 2 then Inl IndexError
                else
                  (let start = (if tag ! 1 = CHR ''/'' then ''</'' else ''<'');
                       index = length tags
                   in Inr (''['' @ format_d index @ '']'', tags @ [start @ nm @ ''>''])))
             else Inr ([], tags))"

text \<open>
  \<open>_HTML_TAG_REGEX.sub(tag_handler, html)\<close>: the subject with every match replaced by
  what the handler returns for it, and the list the handler has filled.
\<close>

function html_tag_regex_sub ::
  "string list \<Rightarrow> string list \<Rightarrow> string \<Rightarrow> error + (string \<times> string list)" where
  "html_tag_regex_sub tag_whitelist tags s =
     (case s of
        [] \<Rightarrow> Inr ([], tags)
      | c # cs \<Rightarrow>
          (case html_tag_regex_match_at s of
             None \<Rightarrow>
               (case html_tag_regex_sub tag_whitelist tags cs of
                  Inl e \<Rightarrow> Inl e
                | Inr (out, tags') \<Rightarrow> Inr (c # out, tags'))
           | Some (m, rest) \<Rightarrow>
               (case tag_sub_handler tag_whitelist tags m of
                  Inl e \<Rightarrow> Inl e
                | Inr (repl, tags1) \<Rightarrow>
                    (case html_tag_regex_sub tag_whitelist tags1 rest of
                       Inl e \<Rightarrow> Inl e
                     | Inr (out, tags') \<Rightarrow> Inr (repl @ out, tags')))))"
  by pat_completeness auto
termination
  by (relation "measure (\<lambda>(w, t, s). length s)")
     (auto dest: html_tag_regex_match_at_length)

declare html_tag_regex_sub.simps [simp del]

text \<open>\<open>_HTML_TAG_REGEX.sub('', value)\<close>.\<close>

function html_tag_regex_delete :: "string \<Rightarrow> string" where
  "html_tag_regex_delete s =
     (case s of
        [] \<Rightarrow> []
      | c # cs \<Rightarrow>
          (case html_tag_regex_match_at s of
             None \<Rightarrow> c # html_tag_regex_delete cs
           | Some (m, rest) \<Rightarrow> html_tag_regex_delete rest))"
  by pat_completeness auto
termination
  by (relation "measure length") (auto dest: html_tag_regex_match_at_length)

declare html_tag_regex_delete.simps [simp del]

text \<open>
  Modelled from the spec: \<open>generated_sanitize._LT_REGEX\<close>, a constant of the generated
  module. Section 4.3 has the path without a whitelist entity-escape every remaining
  \<open><\<close>; the replacement \<open>&lt;\<close> is in the source.
\<close>

definition lt_regex_sub :: "string \<Rightarrow> string" where
  "lt_regex_sub s = concat (map (\<lambda>c. if c = CHR ''<'' then ''&lt;'' else [c]) s)"

text \<open>
  Modelled from the spec: \<open>generated_sanitize.normalize_html_helper\<close>, a function of the
  generated module. Section 4.3 calls it general HTML character escaping and section 1
  an opaque pure function; it is the replacement of each character by the string an
  escape table \<open>esc\<close> gives for it, and the table is a parameter.
\<close>

definition normalize_html_helper :: "(char \<Rightarrow> string) \<Rightarrow> string \<Rightarrow> string" where
  "normalize_html_helper esc s = concat (map esc s)"

text \<open>
  An escape table for the examples: it escapes the two characters the comments of
  \<open>_strip_html_tags\<close> name (\<open>Replace all other uses of < and > with entities\<close>) and
  leaves every other character as it is.
\<close>

definition lt_gt_escape :: "char \<Rightarrow> string" where
  "lt_gt_escape c =
     (if c = CHR ''<'' then ''&lt;'' else if c = CHR ''>'' then ''&gt;'' else [c])"

text \<open>\<open>_REPLACEMENT_TAG_RE\<close>, \<open>\[(\d+)\]\<close>, tried at one position: group 1 and the rest.\<close>

definition replacement_tag_re_match_at :: "string \<Rightarrow> (string \<times> string) option" where
  "replacement_tag_re_match_at s =
     (case s of
        [] \<Rightarrow> None
      | c # r \<Rightarrow>
          if c = CHR ''['' \<and> takeWhile is_digit r \<noteq> [] \<and> take 1 (dropWhile is_digit r) = '']''
          then Some (takeWhile is_digit r, drop 1 (dropWhile is_digit r))
          else None)"

lemma replacement_tag_re_match_at_length:
  assumes "replacement_tag_re_match_at s = Some (g, rest)"
  shows "length rest < length s"
proof -
  from assms obtain c r where s: "s = c # r" and rest: "rest = drop 1 (dropWhile is_digit r)"
    by (auto simp: replacement_tag_re_match_at_def split: list.splits if_splits)
  have "length (dropWhile is_digit r) \<le> length r"
    by (rule length_dropWhile_le)
  with s rest show ?thesis by simp
qed

text \<open>
  \<open>_REPLACEMENT_TAG_RE.sub(lambda match: tags[int(match.group(1))], html)\<close>; an index
  beyond the list raises.
\<close>

function replacement_tag_re_sub :: "string list \<Rightarrow> string \<Rightarrow> error + string" where
  "replacement_tag_re_sub tags s =
     (case s of
        [] \<Rightarrow> Inr []
      | c # cs \<Rightarrow>
          (case replacement_tag_re_match_at s of
             None \<Rightarrow>
               (case replacement_tag_re_sub tags cs of
                  Inl e \<Rightarrow> Inl e
                | Inr out \<Rightarrow> Inr (c # out))
           | Some (g, rest) \<Rightarrow>
               if py_int g < length tags then
                 (case replacement_tag_re_sub tags rest of
                    Inl e \<Rightarrow> Inl e
                  | Inr out \<Rightarrow> Inr (tags ! py_int g @ out))
               else Inl IndexError))"
  by pat_completeness auto
termination
  by (relation "measure (\<lambda>(t, s). length s)")
     (auto dest: replacement_tag_re_match_at_length)

declare replacement_tag_re_sub.simps [simp del]

text \<open>
  \<open>_strip_html_tags\<close>. The whitelist is a list of names; the default \<open>None\<close> of the
  parameter is the empty list here, both being false in \<open>not tag_whitelist\<close>. Without a
  whitelist the value goes to the pattern as it is, which raises unless it is a string;
  with one it goes through \<open>str\<close>.
\<close>

definition strip_html_tags ::
  "(char \<Rightarrow> string) \<Rightarrow> pyvalue \<Rightarrow> string list \<Rightarrow> error + string" where
  "strip_html_tags esc v tag_whitelist =
     (if tag_whitelist = [] then
        (case v of
           PyStr s \<Rightarrow> Inr (lt_regex_sub (html_tag_regex_delete s))
         | _ \<Rightarrow> Inl TypeError)
      else
        (let html = concat (map (\<lambda>c. if c = CHR ''['' then ''&#91;'' else [c]) (py_str v))
         in case html_tag_regex_sub tag_whitelist [] html of
              Inl e \<Rightarrow> Inl e
            | Inr (html1, tags) \<Rightarrow>
                (let html2 = normalize_html_helper esc html1
                 in case balance_tags tags of
                      Inl e \<Rightarrow> Inl e
                    | Inr (tags', final_close_tags) \<Rightarrow>
                        (case replacement_tag_re_sub tags' html2 of
                           Inl e \<Rightarrow> Inl e
                         | Inr html3 \<Rightarrow> Inr (html3 @ final_close_tags)))))"

section \<open>clean_html\<close>

text \<open>
  \<open>clean_html\<close>. The default whitelist \<open>generated_sanitize._SAFE_TAG_WHITELIST\<close> is a
  constant of the generated module and a parameter here. Of the joined whitelist the
  code reads only its truth value and its members, which \<open>remdups\<close> of the two lists
  has.
\<close>

definition clean_html ::
  "(char \<Rightarrow> string) \<Rightarrow> string list \<Rightarrow> pyvalue \<Rightarrow> string list \<Rightarrow> error + sanitized" where
  "clean_html esc SAFE_TAG_WHITELIST v safe_tags =
     (let safe_tags' =
            (if safe_tags = [] then SAFE_TAG_WHITELIST
             else remdups (safe_tags @ SAFE_TAG_WHITELIST))
      in case get_content_of_kind v HTML of
           Some html \<Rightarrow>
             construct SanitizedHtml html (get_content_dir v)
               (Some (IActuallyUnderstandSoyTypeSafetyAndHaveSecurityApproval
                        (Some ''Persisting existing sanitization.'')))
         | None \<Rightarrow>
             (case strip_html_tags esc v safe_tags' of
                Inl e \<Rightarrow> Inl e
              | Inr stripped \<Rightarrow>
                  construct SanitizedHtml stripped (get_content_dir v)
                    (Some (IActuallyUnderstandSoyTypeSafetyAndHaveSecurityApproval
                             (Some ''Escaped html is by nature sanitized.'')))))"

section \<open>html_to_text\<close>

definition REMOVING_TAGS :: "string list" where
  "REMOVING_TAGS = [''script'', ''style'', ''textarea'', ''title'']"

definition BLOCK_TAGS :: "string list" where
  "BLOCK_TAGS =
     [''address'', ''blockquote'', ''dd'', ''div'', ''dl'', ''dt'', ''h1'', ''h2'', ''h3'', ''h4'',
      ''h5'', ''h6'', ''hr'', ''li'', ''ol'', ''p'', ''pre'', ''table'', ''tr'', ''ul'']"

text \<open>\<open>_BLOCK_TAGS_RE.match\<close>: the alternation after an optional slash.\<close>

definition block_tags_re_match :: "string \<Rightarrow> bool" where
  "block_tags_re_match tag =
     re_match_alts BLOCK_TAGS (if take 1 tag = ''/'' then drop 1 tag else tag)"

text \<open>\<open>_HTML_WHITESPACE_RE.sub(' ', chunk)\<close>: every run of \<open>[ \t\r\n]\<close> becomes one space.\<close>

function html_whitespace_sub :: "string \<Rightarrow> string" where
  "html_whitespace_sub [] = []"
| "html_whitespace_sub (c # cs) =
     (if is_html_space c then CHR '' '' # html_whitespace_sub (dropWhile is_html_space cs)
      else c # html_whitespace_sub cs)"
  by pat_completeness auto
termination
  by (relation "measure length") (auto simp: length_dropWhile_le less_Suc_eq_le)

text \<open>\<open>_TRAILING_NON_WHITESPACE_RE.search\<close> and \<open>_TRAILING_NON_NEWLINE_RE.search\<close>.\<close>

definition trailing_non_whitespace :: "string \<Rightarrow> bool" where
  "trailing_non_whitespace t = (t \<noteq> [] \<and> \<not> is_html_space (last t))"

definition trailing_non_newline :: "string \<Rightarrow> bool" where
  "trailing_non_newline t = (t \<noteq> [] \<and> last t \<noteq> CHR 0x0A)"

text \<open>\<open>_LEADING_SPACE_RE.sub('', chunk)\<close>.\<close>

definition leading_space_sub :: "string \<Rightarrow> string" where
  "leading_space_sub chunk = (if take 1 chunk = '' '' then drop 1 chunk else chunk)"

text \<open>
  \<open>html.unescape\<close> of the Python library returns a string without \<open>&\<close> as it is, and
  replaces the character references of any other; that replacement, with the
  library's table of named references, is the parameter \<open>charref\<close>.
\<close>

definition html_unescape :: "(string \<Rightarrow> string) \<Rightarrow> string \<Rightarrow> string" where
  "html_unescape charref s = (if CHR ''&'' \<in> set s then charref s else s)"

text \<open>
  \<open>_STYLE_RE\<close> tried at one position: groups 1 and 2, and the rest. Neighbouring
  parts of the pattern match disjoint classes, so each takes all it can.
\<close>

definition is_style_char :: "char \<Rightarrow> bool" where
  "is_style_char c = (c \<noteq> CHR '':'' \<and> c \<noteq> CHR '';'' \<and> \<not> is_html_space c)"

definition style_re_match_at :: "string \<Rightarrow> (string \<times> string \<times> string) option" where
  "style_re_match_at s =
     (let s1 = dropWhile is_html_space s;
          g1 = takeWhile is_style_char s1;
          s2 = dropWhile is_html_space (dropWhile is_style_char s1)
      in case s2 of
           [] \<Rightarrow> None
         | c # s3 \<Rightarrow>
             if c \<noteq> CHR '':'' then None
             else
               (let s4 = dropWhile is_html_space s3;
                    g2 = takeWhile is_style_char s4;
                    s5 = dropWhile is_html_space (dropWhile is_style_char s4)
                in case s5 of
                     [] \<Rightarrow> Some (g1, g2, [])
                   | d # s6 \<Rightarrow> if d = CHR '';'' then Some (g1, g2, s6) else None))"

lemma style_re_match_at_length:
  assumes "style_re_match_at s = Some (g1, g2, rest)"
  shows "length rest < length s"
proof -
  have le: "\<And>P (xs :: string). length (dropWhile P xs) \<le> length xs"
    by (rule length_dropWhile_le)
  define s2 where "s2 = dropWhile is_html_space (dropWhile is_style_char (dropWhile is_html_space s))"
  have l2: "length s2 \<le> length s"
    unfolding s2_def by (meson le le_trans)
  from assms obtain s3 where s3: "s2 = CHR '':'' # s3"
    by (auto simp: style_re_match_at_def Let_def s2_def split: list.splits if_splits)
  define s5 where "s5 = dropWhile is_html_space (dropWhile is_style_char (dropWhile is_html_space s3))"
  have l5: "length s5 \<le> length s3"
    unfolding s5_def by (meson le le_trans)
  from assms s3 have "length rest \<le> length s5"
    by (auto simp: style_re_match_at_def Let_def s2_def [symmetric] s5_def [symmetric]
             split: list.splits if_splits)
  with l5 l2 s3 show ?thesis by simp
qed

function style_re_finditer :: "string \<Rightarrow> (string \<times> string) list" where
  "style_re_finditer s =
     (case s of
        [] \<Rightarrow> []
      | c # cs \<Rightarrow>
          (case style_re_match_at s of
             None \<Rightarrow> style_re_finditer cs
           | Some (g1, g2, rest) \<Rightarrow> (g1, g2) # style_re_finditer rest))"
  by pat_completeness auto
termination
  by (relation "measure length") (auto dest: style_re_match_at_length)

declare style_re_finditer.simps [simp del]

text \<open>The loop of \<open>get_style_preserves_whitespace\<close>; falling off its end returns \<open>None\<close>.\<close>

fun style_loop :: "(string \<times> string) list \<Rightarrow> bool option" where
  "style_loop [] = None"
| "style_loop ((style_attribute, style_attribute_value) # ms) =
     (if style_attribute \<noteq> [] \<and> lower style_attribute = ''white-space'' then
        (if re_match_alts [''pre'', ''pre-wrap'', ''break-spaces''] style_attribute_value
         then Some True
         else if re_match_alts [''normal'', ''nowrap''] style_attribute_value
         then Some False
         else style_loop ms)
      else style_loop ms)"

definition get_style_preserves_whitespace :: "string \<Rightarrow> bool option" where
  "get_style_preserves_whitespace style = style_loop (style_re_finditer style)"

text \<open>\<open>_ATTR_RE\<close> tried at one position: groups 1 and 2 (the value with its quotes), and the rest.\<close>

definition is_attr_name_char :: "char \<Rightarrow> bool" where
  "is_attr_name_char c =
     (is_ascii_alpha c \<or> is_digit c \<or> c = CHR '':'' \<or> c = CHR 0x5C \<or> c = CHR ''-'')"

definition attr_re_match_at :: "string \<Rightarrow> (string \<times> string \<times> string) option" where
  "attr_re_match_at s =
     (case s of
        [] \<Rightarrow> None
      | c # r \<Rightarrow>
          if \<not> is_ascii_alpha c then None
          else
            (case dropWhile is_html_space (dropWhile is_attr_name_char r) of
               [] \<Rightarrow> None
             | e # s1 \<Rightarrow>
                 if e \<noteq> CHR ''='' then None
                 else
                   (case dropWhile is_html_space s1 of
                      [] \<Rightarrow> None
                    | q # s2 \<Rightarrow>
                        if q = CHR 0x22 \<or> q = CHR 0x27 then
                          (case dropWhile (\<lambda>d. d \<noteq> q) s2 of
                             [] \<Rightarrow> None
                           | q' # rest \<Rightarrow>
                               Some (c # takeWhile is_attr_name_char r,
                                     q # takeWhile (\<lambda>d. d \<noteq> q) s2 @ [q'], rest))
                        else None)))"

lemma attr_re_match_at_length:
  assumes "attr_re_match_at s = Some (n, v, rest)"
  shows "length rest < length s"
proof -
  have le: "\<And>P (xs :: string). length (dropWhile P xs) \<le> length xs"
    by (rule length_dropWhile_le)
  from assms obtain c r where s: "s = c # r"
    by (auto simp: attr_re_match_at_def split: list.splits)
  define t1 where "t1 = dropWhile is_html_space (dropWhile is_attr_name_char r)"
  have l1: "length t1 \<le> length r"
    unfolding t1_def by (meson le le_trans)
  from assms s obtain s1 where s1: "t1 = CHR ''='' # s1"
    by (auto simp: attr_re_match_at_def t1_def split: list.splits if_splits)
  from assms s s1 obtain q s2 where s2: "dropWhile is_html_space s1 = q # s2"
    by (auto simp: attr_re_match_at_def t1_def [symmetric] split: list.splits if_splits)
  have l2: "length (q # s2) \<le> length s1"
    using le [of is_html_space s1] s2 by simp
  from assms s s1 s2 obtain q' where "dropWhile (\<lambda>d. d \<noteq> q) s2 = q' # rest"
    by (auto simp: attr_re_match_at_def t1_def [symmetric] split: list.splits if_splits)
  then have l3: "length rest < length s2"
    using le [of "\<lambda>d. d \<noteq> q" s2] by simp
  from l1 l2 l3 s s1 show ?thesis by simp
qed

function attr_re_finditer :: "string \<Rightarrow> (string \<times> string) list" where
  "attr_re_finditer s =
     (case s of
        [] \<Rightarrow> []
      | c # cs \<Rightarrow>
          (case attr_re_match_at s of
             None \<Rightarrow> attr_re_finditer cs
           | Some (n, v, rest) \<Rightarrow> (n, v) # attr_re_finditer rest))"
  by pat_completeness auto
termination
  by (relation "measure length") (auto dest: attr_re_match_at_length)

declare attr_re_finditer.simps [simp del]

text \<open>
  The loop of \<open>get_attributes_preserve_whitespace\<close>: the first \<open>style\<close> attribute
  decides, and \<open>style[1:-1]\<close> takes the quotes off its value.
\<close>

fun attrs_loop :: "(string \<times> string) list \<Rightarrow> bool option" where
  "attrs_loop [] = None"
| "attrs_loop ((attribute_name, style) # ms) =
     (if attribute_name \<noteq> [] \<and> lower attribute_name = ''style'' then
        (case style of
           [] \<Rightarrow> None
         | q # _ \<Rightarrow>
             get_style_preserves_whitespace
               (if q = CHR 0x27 \<or> q = CHR 0x22 then butlast (tl style) else style))
      else attrs_loop ms)"

definition get_attributes_preserve_whitespace :: "string option \<Rightarrow> bool option" where
  "get_attributes_preserve_whitespace attrs =
     (case attrs of
        None \<Rightarrow> None
      | Some a \<Rightarrow> if a = [] then None else attrs_loop (attr_re_finditer a))"

text \<open>
  The whitespace stack is the Python list \<open>preserve_whitespace_stack\<close>: pairs of a tag
  and a flag, the top at the end.
\<close>

type_synonym frames = "(string \<times> bool) list"

definition should_preserve_whitespace :: "frames \<Rightarrow> bool" where
  "should_preserve_whitespace preserve_whitespace_stack =
     (if preserve_whitespace_stack \<noteq> [] then snd (last preserve_whitespace_stack) else False)"

text \<open>The loop \<open>while stack and stack.pop()[0] != tag: pass\<close>.\<close>

function pop_until :: "string \<Rightarrow> frames \<Rightarrow> frames" where
  "pop_until tag preserve_whitespace_stack =
     (if preserve_whitespace_stack \<noteq> [] \<and> fst (last preserve_whitespace_stack) \<noteq> tag
      then pop_until tag (butlast preserve_whitespace_stack)
      else butlast preserve_whitespace_stack)"
  by pat_completeness auto
termination
  by (relation "measure (\<lambda>(t, s). length s)") auto

declare pop_until.simps [simp del]

text \<open>\<open>update_preserve_whitespace_stack\<close>; reading \<open>tag[0]\<close> of the empty string raises.\<close>

definition update_preserve_whitespace_stack ::
  "string \<Rightarrow> string option \<Rightarrow> frames \<Rightarrow> error + frames" where
  "update_preserve_whitespace_stack tag attrs preserve_whitespace_stack =
     (case tag of
        [] \<Rightarrow> Inl IndexError
      | c # tag' \<Rightarrow>
          if c = CHR ''/'' then Inr (pop_until tag' preserve_whitespace_stack)
          else if re_match_alts [''pre''] tag
          then Inr (preserve_whitespace_stack @ [(tag, True)])
          else
            (let preserve_whitespace =
                   (case get_attributes_preserve_whitespace attrs of
                      None \<Rightarrow> should_preserve_whitespace preserve_whitespace_stack
                    | Some b \<Rightarrow> b)
             in Inr (preserve_whitespace_stack @ [(tag, preserve_whitespace)])))"

text \<open>The variables of the loop of \<open>html_to_text\<close>.\<close>

record loop_state =
  text_buf :: string
  removing_until :: string
  preserve_whitespace_stack :: frames

text \<open>
  The chain \<open>if _REMOVING_TAGS_RE.match(tag) ... elif _TAB_TAGS_RE.match(tag)\<close> of the
  loop: what a tag does to \<open>text\<close> and to \<open>removing_until\<close>.
\<close>

definition tag_effect :: "string \<Rightarrow> loop_state \<Rightarrow> loop_state" where
  "tag_effect tag st =
     (if re_match_alts REMOVING_TAGS tag then st\<lparr>removing_until := ''/'' @ tag\<rparr>
      else if re_match_alts [''br''] tag then st\<lparr>text_buf := text_buf st @ [CHR 0x0A]\<rparr>
      else if block_tags_re_match tag then
        (if trailing_non_newline (text_buf st)
         then st\<lparr>text_buf := text_buf st @ [CHR 0x0A]\<rparr> else st)
      else if re_match_alts [''td'', ''th''] tag then st\<lparr>text_buf := text_buf st @ [CHR 0x09]\<rparr>
      else st)"

text \<open>
  The variable \<open>tag\<close> of the loop: group 1 in lower case, or \<open>None\<close> when the group is
  absent or empty.
\<close>

definition match_tag :: "re_match \<Rightarrow> string option" where
  "match_tag m =
     (case group1 m of
        None \<Rightarrow> None
      | Some g \<Rightarrow> if g \<noteq> [] then Some (lower g) else None)"

text \<open>
  What the loop appends to \<open>text\<close> for the text \<open>html[start:offset]\<close> before a match,
  outside a raw-text region.
\<close>

definition chunk_text :: "(string \<Rightarrow> string) \<Rightarrow> loop_state \<Rightarrow> string \<Rightarrow> string" where
  "chunk_text charref st gap =
     (let chunk = html_unescape charref gap
      in if \<not> should_preserve_whitespace (preserve_whitespace_stack st) then
           (if \<not> trailing_non_whitespace (text_buf st)
            then leading_space_sub (html_whitespace_sub chunk)
            else html_whitespace_sub chunk)
         else chunk)"

text \<open>One round of the loop, for a match and the text \<open>html[start:offset]\<close> before it.\<close>

definition html_to_text_step ::
  "(string \<Rightarrow> string) \<Rightarrow> loop_state \<Rightarrow> string \<times> re_match \<Rightarrow> error + loop_state" where
  "html_to_text_step charref st gm =
     (let tag = match_tag (snd gm);
          attrs = group2 (snd gm)
      in if removing_until st = [] then
           (let st1 = st\<lparr>text_buf := text_buf st @ chunk_text charref st (fst gm)\<rparr>
            in case tag of
                 None \<Rightarrow> Inr st1
               | Some t \<Rightarrow>
                   (let st2 = tag_effect t st1
                    in if \<not> html5_void_elements_re_match (''<'' @ t @ ''>'') then
                         (case update_preserve_whitespace_stack t attrs
                                 (preserve_whitespace_stack st2) of
                            Inl e \<Rightarrow> Inl e
                          | Inr stack \<Rightarrow> Inr (st2\<lparr>preserve_whitespace_stack := stack\<rparr>))
                       else Inr st2))
         else if Some (removing_until st) = tag then Inr (st\<lparr>removing_until := []\<rparr>)
         else Inr st)"

fun html_to_text_loop ::
  "(string \<Rightarrow> string) \<Rightarrow> loop_state \<Rightarrow> (string \<times> re_match) list \<Rightarrow> error + loop_state" where
  "html_to_text_loop charref st [] = Inr st"
| "html_to_text_loop charref st (gm # gms) =
     (case html_to_text_step charref st gm of
        Inl e \<Rightarrow> Inl e
      | Inr st' \<Rightarrow> html_to_text_loop charref st' gms)"

definition html_to_text :: "(string \<Rightarrow> string) \<Rightarrow> pyvalue \<Rightarrow> error + string" where
  "html_to_text charref v =
     (case v of
        PyNone \<Rightarrow> Inr []
      | _ \<Rightarrow>
          (let html = py_str v
           in if \<not> (case v of PySanitized x \<Rightarrow> cls x = SanitizedHtml | _ \<Rightarrow> False)
              then Inr html
              else
                (case html_to_text_loop charref
                        \<lparr>text_buf = [], removing_until = [], preserve_whitespace_stack = []\<rparr>
                        (tag_re_finditer [] html) of
                   Inl e \<Rightarrow> Inl e
                 | Inr st \<Rightarrow>
                     Inr (map (\<lambda>c. if c = CHR 0xA0 then CHR '' '' else c) (text_buf st)))))"

section \<open>Notions for the proofs about the whitelist filter\<close>

text \<open>
  None of the definitions of this section is part of the program: they describe the
  strings the filter passes from one step to the next.
\<close>

text \<open>
  A tag name as the tag pattern reads it, and a tag as \<open>_tag_sub_handler\<close> writes it
  for a name of the whitelist: \<open><name>\<close> or \<open></name>\<close>, the name in lower case.
\<close>

definition wf_name :: "string \<Rightarrow> bool" where
  "wf_name n = (n \<noteq> [] \<and> is_ascii_alpha (hd n) \<and> list_all is_name_char (tl n))"

definition wf_tok :: "string list \<Rightarrow> string \<Rightarrow> bool" where
  "wf_tok wl t =
     list_ex (\<lambda>n. wf_name n \<and> lower n = n \<and> (t = ''<'' @ n @ ''>'' \<or> t = ''</'' @ n @ ''>'')) wl"

text \<open>
  The intermediate strings are sequences of pieces: text, and places where a
  whitelisted tag stood. \<open>flat\<close> writes the tags themselves, \<open>render_ph\<close> the
  placeholders \<open>[k]\<close>, \<open>[k+1]\<close>, ... for them; \<open>toks\<close> is the list of the tags, and
  \<open>fill\<close> writes a list of replacement strings in their places.
\<close>

datatype piece = Txt string | Tok string

fun piece_str :: "piece \<Rightarrow> string" where
  "piece_str (Txt x) = x"
| "piece_str (Tok t) = t"

definition flat :: "piece list \<Rightarrow> string" where
  "flat ps = concat (map piece_str ps)"

fun toks :: "piece list \<Rightarrow> string list" where
  "toks [] = []"
| "toks (Txt x # ps) = toks ps"
| "toks (Tok t # ps) = t # toks ps"

fun render_ph :: "nat \<Rightarrow> piece list \<Rightarrow> string" where
  "render_ph k [] = []"
| "render_ph k (Txt x # ps) = x @ render_ph k ps"
| "render_ph k (Tok t # ps) = ''['' @ format_d k @ '']'' @ render_ph (Suc k) ps"

fun map_txt :: "(string \<Rightarrow> string) \<Rightarrow> piece \<Rightarrow> piece" where
  "map_txt f (Txt x) = Txt (f x)"
| "map_txt f (Tok t) = Tok t"

fun fill :: "string list \<Rightarrow> piece list \<Rightarrow> string" where
  "fill ts [] = []"
| "fill ts (Txt x # ps) = x @ fill ts ps"
| "fill ts (Tok t # ps) = (case ts of [] \<Rightarrow> [] | u # us \<Rightarrow> u @ fill us ps)"

text \<open>
  Properties of the pieces: the text has no \<open><\<close> and the tags are those of the
  whitelist (\<open>canonical\<close>); the text is made of characters of a string \<open>s\<close>
  (\<open>sourced\<close>); the text has no \<open>[\<close>; the text has no \<open><\<close>; the escape table leaves
  the text as it is.
\<close>

definition canonical :: "string list \<Rightarrow> piece list \<Rightarrow> bool" where
  "canonical wl ps =
     list_all (\<lambda>p. case p of Txt x \<Rightarrow> CHR ''<'' \<notin> set x | Tok t \<Rightarrow> wf_tok wl t) ps"

definition sourced :: "string list \<Rightarrow> string \<Rightarrow> piece list \<Rightarrow> bool" where
  "sourced wl s ps =
     list_all (\<lambda>p. case p of Txt x \<Rightarrow> set x \<subseteq> set s | Tok t \<Rightarrow> wf_tok wl t) ps"

definition bracket_free :: "piece list \<Rightarrow> bool" where
  "bracket_free ps = list_all (\<lambda>p. case p of Txt x \<Rightarrow> CHR ''['' \<notin> set x | Tok t \<Rightarrow> True) ps"

definition lt_free :: "piece list \<Rightarrow> bool" where
  "lt_free ps = list_all (\<lambda>p. case p of Txt x \<Rightarrow> CHR ''<'' \<notin> set x | Tok t \<Rightarrow> True) ps"

definition fixed_txt :: "(char \<Rightarrow> string) \<Rightarrow> piece list \<Rightarrow> bool" where
  "fixed_txt esc ps =
     list_all (\<lambda>p. case p of Txt x \<Rightarrow> normalize_html_helper esc x = x | Tok t \<Rightarrow> True) ps"

text \<open>
  One round of the loop of \<open>_balance_tags\<close> as a function of the stack and the tag:
  the tags written in place of the tag, as a list, and the stack after it; and the loop
  over a list of tags, with the lists it writes.
\<close>

definition balance_step :: "string list \<Rightarrow> string \<Rightarrow> string list \<times> string list" where
  "balance_step ot tag =
     (if tag ! 1 = CHR ''/'' then
        (case search_open_tags ot tag (length ot) of
           None \<Rightarrow> ([], ot)
         | Some i \<Rightarrow> (rev (drop i ot), take i ot))
      else if \<not> html5_void_elements_re_match tag then ([tag], ot @ [''</'' @ drop 1 tag])
      else ([tag], ot))"

fun balance_flat :: "string list \<Rightarrow> string list \<Rightarrow> string list list \<times> string list" where
  "balance_flat ot [] = ([], ot)"
| "balance_flat ot (tag # tags) =
     (fst (balance_step ot tag) # fst (balance_flat (snd (balance_step ot tag)) tags),
      snd (balance_flat (snd (balance_step ot tag)) tags))"

text \<open>A string of the stack of open tags: its second character is the slash.\<close>

definition is_closer :: "string \<Rightarrow> bool" where
  "is_closer c = (2 \<le> length c \<and> c ! 1 = CHR ''/'')"

text \<open>The pieces after balancing: each tag gives way to the tags written for it.\<close>

fun expand :: "string list list \<Rightarrow> piece list \<Rightarrow> piece list" where
  "expand F [] = []"
| "expand F (Txt x # ps) = Txt x # expand F ps"
| "expand F (Tok t # ps) = (case F of [] \<Rightarrow> [] | f # F' \<Rightarrow> map Tok f @ expand F' ps)"

text \<open>The first step of \<open>_strip_html_tags\<close> with a whitelist.\<close>

definition escape_brackets :: "string \<Rightarrow> string" where
  "escape_brackets s = concat (map (\<lambda>c. if c = CHR ''['' then ''&#91;'' else [c]) s)"

section \<open>The whitelist filter on the examples of the specification\<close>

text \<open>
  C1 (the balance invariant): in the output of the whitelist filter every whitelisted
  opening tag of a non-void element is closed after it. The theorem evaluates the code
  where this fails. The name \<open>br-x\<close> is none of the sixteen void elements, yet
  \<open>_HTML5_VOID_ELEMENTS_RE\<close> matches \<open><br-x>\<close>, its \<open>\b\<close> standing between \<open>r\<close> and
  \<open>-\<close>; so \<open>_balance_tags\<close> never puts the tag on its stack, drops the closing tag as
  one without an opener, and computes no closing suffix.
\<close>

theorem void_word_boundary_unclosed:
  "\<not> list_ex (\<lambda>v. v = ''br-x'') HTML5_VOID_ELEMENTS \<and>
   html5_void_elements_re_match ''<br-x>'' \<and>
   balance_tags [''<br-x>''] = Inr ([''<br-x>''], []) \<and>
   strip_html_tags lt_gt_escape (PyStr ''<br-x>a</br-x>'') [''br-x''] = Inr ''<br-x>a''"
  by code_simp

text \<open>
  C2, as amended: the filter with the whitelist \<open>{b}\<close> on \<open><b>ok<i>bad</i></b>\<close> returns
  \<open><b>okbad</b>\<close>, for every escape table that leaves the letters, the digits and the
  brackets of the intermediate string as they are: the tags \<open><i>\<close> and \<open></i>\<close> are
  deleted, the text between them stays.
\<close>

theorem strip_html_tags_b_example:
  assumes "\<forall>c \<in> set ''[]01okbad''. esc c = [c]"
  shows "strip_html_tags esc (PyStr ''<b>ok<i>bad</i></b>'') [''b''] = Inr ''<b>okbad</b>''"
proof -
  have sub: "html_tag_regex_sub [''b''] [] ''<b>ok<i>bad</i></b>''
               = Inr (''[0]okbad[1]'', [''<b>'', ''</b>''])"
    by code_simp
  have nrm: "normalize_html_helper esc ''[0]okbad[1]'' = ''[0]okbad[1]''"
    using assms by (simp add: normalize_html_helper_def)
  have bal: "balance_tags [''<b>'', ''</b>''] = Inr ([''<b>'', ''</b>''], [])"
    by code_simp
  have rep: "replacement_tag_re_sub [''<b>'', ''</b>''] ''[0]okbad[1]'' = Inr ''<b>okbad</b>''"
    by code_simp
  show ?thesis
    by (simp add: strip_html_tags_def sub nrm bal rep)
qed

theorem strip_html_tags_b_example_witness:
  "strip_html_tags lt_gt_escape (PyStr ''<b>ok<i>bad</i></b>'') [''b''] = Inr ''<b>okbad</b>''"
proof -
  have "\<forall>c \<in> set ''[]01okbad''. lt_gt_escape c = [c]"
    by (simp add: lt_gt_escape_def)
  then show ?thesis by (rule strip_html_tags_b_example)
qed

text \<open>C2 as the specification states it fails: the result is not \<open><b>ok</b>\<close>.\<close>

theorem strip_html_tags_b_example_counterexample:
  "strip_html_tags lt_gt_escape (PyStr ''<b>ok<i>bad</i></b>'') [''b''] \<noteq> Inr ''<b>ok</b>''"
  by code_simp

text \<open>
  C4: in the loop of \<open>_balance_tags\<close>, a closing tag that is not on the stack of open
  tags is replaced by the empty string and the loop goes on with the stack as it was;
  and the filter with the whitelist \<open>{table, tr}\<close> on \<open></table><tr>x</tr>\<close> returns
  \<open><tr>x</tr>\<close>, for every escape table that leaves the characters of the intermediate
  string as they are.
\<close>

theorem dangling_close_dropped:
  "(2 \<le> length tag \<and> tag ! 1 = CHR ''/'' \<and> tag \<notin> set open_tags \<longrightarrow>
      balance_loop open_tags (tag # tags) = with_tag [] (balance_loop open_tags tags)) \<and>
   ((\<forall>c \<in> set ''[]012x''. esc c = [c]) \<longrightarrow>
      strip_html_tags esc (PyStr ''</table><tr>x</tr>'') [''table'', ''tr''] = Inr ''<tr>x</tr>'')"
proof (intro conjI impI)
  assume a: "2 \<le> length tag \<and> tag ! 1 = CHR ''/'' \<and> tag \<notin> set open_tags"
  have "n \<le> length open_tags \<Longrightarrow> search_open_tags open_tags tag n = None" for n
    using a by (induction n) auto
  then have "search_open_tags open_tags tag (length open_tags) = None" by simp
  with a show "balance_loop open_tags (tag # tags) = with_tag [] (balance_loop open_tags tags)"
    by simp
next
  assume e: "\<forall>c \<in> set ''[]012x''. esc c = [c]"
  have sub: "html_tag_regex_sub [''table'', ''tr''] [] ''</table><tr>x</tr>''
               = Inr (''[0][1]x[2]'', [''</table>'', ''<tr>'', ''</tr>''])"
    by code_simp
  have nrm: "normalize_html_helper esc ''[0][1]x[2]'' = ''[0][1]x[2]''"
    using e by (simp add: normalize_html_helper_def)
  have bal: "balance_tags [''</table>'', ''<tr>'', ''</tr>''] = Inr ([[], ''<tr>'', ''</tr>''], [])"
    by code_simp
  have rep: "replacement_tag_re_sub [[], ''<tr>'', ''</tr>''] ''[0][1]x[2]'' = Inr ''<tr>x</tr>''"
    by code_simp
  show "strip_html_tags esc (PyStr ''</table><tr>x</tr>'') [''table'', ''tr''] = Inr ''<tr>x</tr>''"
    by (simp add: strip_html_tags_def sub nrm bal rep)
qed

theorem dangling_close_dropped_witness:
  "balance_loop [''</b>''] [''</table>'', ''<tr>'', ''</tr>'']
     = Inr ([[], ''<tr>'', ''</tr>''], [''</b>'']) \<and>
   strip_html_tags lt_gt_escape (PyStr ''</table><tr>x</tr>'') [''table'', ''tr'']
     = Inr ''<tr>x</tr>''"
proof -
  have h1: "2 \<le> length ''</table>'' \<and> ''</table>'' ! 1 = CHR ''/'' \<and> ''</table>'' \<notin> set [''</b>'']"
    by simp
  have h2: "\<forall>c \<in> set ''[]012x''. lt_gt_escape c = [c]"
    by (simp add: lt_gt_escape_def)
  have r: "with_tag [] (balance_loop [''</b>''] [''<tr>'', ''</tr>''])
             = Inr ([[], ''<tr>'', ''</tr>''], [''</b>''])"
    by code_simp
  from dangling_close_dropped
         [of "''</table>''" "[''</b>'']" "[''<tr>'', ''</tr>'']" lt_gt_escape] h1 h2 r
  show ?thesis by simp
qed

section \<open>Constructing sanitized content\<close>

text \<open>
  C3: constructing a sanitized value fails, with \<open>TypeError\<close> (the policy violation of
  the specification), exactly when the approval is absent, or its justification is
  missing or shorter than 20 characters, or the class has no content kind (the base
  class \<open>SanitizedContent\<close>); with a content kind and a justification of at least 20
  characters it succeeds and keeps the content, whatever the content is.
\<close>

theorem construct_policy_violation:
  "(isl (construct c cont d appr) \<longleftrightarrow>
      appr = None \<or>
      (\<exists>a. appr = Some a \<and>
           (justification a = None \<or> (\<exists>j. justification a = Some j \<and> length j < 20))) \<or>
      class_content_kind c = None) \<and>
   (\<forall>e. construct c cont d appr = Inl e \<longrightarrow> e = TypeError) \<and>
   (\<forall>a j. class_content_kind c \<noteq> None \<and> appr = Some a \<and> justification a = Some j \<and>
          20 \<le> length j \<longrightarrow>
      (\<exists>x. construct c cont d appr = Inr x \<and> cls x = c \<and> content x = cont))"
  by (cases c; cases appr)
     (auto simp: construct_def sanitized_new_def sanitized_init_def split: option.splits)

theorem construct_policy_violation_witness:
  "isl (construct SanitizedHtml ''<b>x</b>'' None
          (Some (IActuallyUnderstandSoyTypeSafetyAndHaveSecurityApproval (Some ''too short'')))) \<and>
   isl (construct SanitizedContent ''x'' None
          (Some (IActuallyUnderstandSoyTypeSafetyAndHaveSecurityApproval
                   (Some ''Escaped html is by nature sanitized.'')))) \<and>
   (\<exists>x. construct SanitizedHtml ''<b>x</b>'' None
          (Some (IActuallyUnderstandSoyTypeSafetyAndHaveSecurityApproval
                   (Some ''Escaped html is by nature sanitized.''))) = Inr x \<and>
        cls x = SanitizedHtml \<and> content x = ''<b>x</b>'')"
proof -
  define short where "short = IActuallyUnderstandSoyTypeSafetyAndHaveSecurityApproval (Some ''too short'')"
  define long where "long = IActuallyUnderstandSoyTypeSafetyAndHaveSecurityApproval
                 (Some ''Escaped html is by nature sanitized.'')"
  have s: "justification short = Some ''too short''"
    by (simp add: short_def IActuallyUnderstandSoyTypeSafetyAndHaveSecurityApproval_def)
  have l: "justification long = Some ''Escaped html is by nature sanitized.''"
    by (simp add: long_def IActuallyUnderstandSoyTypeSafetyAndHaveSecurityApproval_def)
  have ls: "length ''too short'' < 20" by simp
  have ll: "20 \<le> length ''Escaped html is by nature sanitized.''" by simp
  have 1: "isl (construct SanitizedHtml ''<b>x</b>'' None (Some short))"
    using construct_policy_violation [of SanitizedHtml "''<b>x</b>''" None "Some short"] s ls
    by blast
  have 2: "isl (construct SanitizedContent ''x'' None (Some long))"
    using construct_policy_violation [of SanitizedContent "''x''" None "Some long"]
    by simp
  have k: "class_content_kind SanitizedHtml \<noteq> None" by simp
  have 3: "\<exists>x. construct SanitizedHtml ''<b>x</b>'' None (Some long) = Inr x \<and>
        cls x = SanitizedHtml \<and> content x = ''<b>x</b>''"
    using construct_policy_violation [of SanitizedHtml "''<b>x</b>''" None "Some long"] l ll k
    by blast
  from 1 2 3 show ?thesis unfolding short_def long_def by blast
qed

section \<open>clean_html on trusted HTML\<close>

text \<open>
  C9: for a value whose content kind is HTML, \<open>clean_html\<close> returns a \<open>SanitizedHtml\<close>
  with the same content and the same direction, whatever the whitelists and the escape
  table are: no tag is filtered.
\<close>

theorem clean_html_keeps_html:
  assumes "is_content_kind (PySanitized x) HTML"
  shows "clean_html esc SAFE_TAG_WHITELIST (PySanitized x) safe_tags =
           Inr \<lparr>cls = SanitizedHtml, content = content x, content_dir = content_dir x\<rparr>"
  using assms
  by (simp add: clean_html_def get_content_of_kind_def construct_def sanitized_new_def
        sanitized_init_def IActuallyUnderstandSoyTypeSafetyAndHaveSecurityApproval_def Let_def)

theorem clean_html_keeps_html_witness:
  "clean_html lt_gt_escape [''b'']
     (PySanitized \<lparr>cls = SanitizedHtml, content = ''<script>x</script><i>'', content_dir = Some RTL\<rparr>)
     [''em'']
     = Inr \<lparr>cls = SanitizedHtml, content = ''<script>x</script><i>'', content_dir = Some RTL\<rparr>"
proof -
  have "is_content_kind
          (PySanitized \<lparr>cls = SanitizedHtml, content = ''<script>x</script><i>'',
                        content_dir = Some RTL\<rparr>) HTML"
    by simp
  from clean_html_keeps_html [OF this, of lt_gt_escape "[''b'']" "[''em'']"]
  show ?thesis by simp
qed

section \<open>html_to_text on the examples and its tag handling\<close>

lemma removing_tags_match: "list_all (re_match_alts REMOVING_TAGS) REMOVING_TAGS"
  by code_simp

text \<open>
  C8, as amended: for every value other than \<open>None\<close> whose content kind is not HTML,
  \<open>html_to_text\<close> returns \<open>str(value)\<close> as it is. (For \<open>None\<close> it returns the empty
  string.)
\<close>

theorem html_to_text_non_html:
  assumes "v \<noteq> PyNone" and "\<not> is_content_kind v HTML"
  shows "html_to_text charref v = Inr (py_str v)"
proof (cases v)
  case (PySanitized x)
  with assms(2) have "cls x \<noteq> SanitizedHtml" by auto
  with PySanitized show ?thesis by (simp add: html_to_text_def)
qed (use assms in \<open>simp_all add: html_to_text_def\<close>)

theorem html_to_text_non_html_witness:
  "html_to_text id (PyStr ''<p>a    b</p>'') = Inr ''<p>a    b</p>'' \<and>
   html_to_text id
     (PySanitized \<lparr>cls = SanitizedJs, content = ''<p>a    b</p>'', content_dir = Some LTR\<rparr>)
     = Inr ''<p>a    b</p>''"
proof -
  let ?js = "PySanitized \<lparr>cls = SanitizedJs, content = ''<p>a    b</p>'', content_dir = Some LTR\<rparr>"
  have 1: "PyStr ''<p>a    b</p>'' \<noteq> PyNone" "\<not> is_content_kind (PyStr ''<p>a    b</p>'') HTML"
    by simp_all
  have 2: "?js \<noteq> PyNone" "\<not> is_content_kind ?js HTML"
    by simp_all
  from html_to_text_non_html [OF 1, of id] html_to_text_non_html [OF 2, of id]
  show ?thesis by simp
qed

text \<open>
  C8 as the specification states it fails on \<open>None\<close>, which has no content kind and
  whose string form is \<open>None\<close>: the guard at the head of \<open>html_to_text\<close> returns the
  empty string.
\<close>

theorem html_to_text_non_html_counterexample:
  "\<not> is_content_kind PyNone HTML \<and> html_to_text id PyNone = Inr [] \<and> py_str PyNone = ''None''"
  by (simp add: html_to_text_def)

lemma lower_newline: "lower_char (CHR 0x0A) = CHR 0x0A"
  by (simp add: lower_char_def code_point_def)

lemma lower_slash: "lower_char (CHR ''/'') = CHR ''/''"
  by (simp add: lower_char_def code_point_def)

lemma re_match_alts_lower:
  assumes "re_match_alts alts s"
  shows "\<exists>p \<in> set alts. lower s = p \<or> lower s = p @ [CHR 0x0A]"
proof -
  from assms obtain p where p: "p \<in> set alts" "lower (take (length p) s) = p"
    and d: "drop (length p) s = [] \<or> drop (length p) s = [CHR 0x0A]"
    by (auto simp: re_match_alts_def list_ex_iff)
  have "lower s = lower (take (length p) s) @ lower (drop (length p) s)"
    by (metis append_take_drop_id lower_def map_append)
  with p d have "lower s = p \<or> lower s = p @ [CHR 0x0A]"
    by (auto simp: lower_def lower_newline)
  with p show ?thesis by blast
qed

lemma block_names_apart:
  "list_all (\<lambda>p. list_all (\<lambda>q. p \<noteq> q \<and> p @ [CHR 0x0A] \<noteq> q \<and> p \<noteq> q @ [CHR 0x0A] \<and>
                                 take 1 q \<noteq> ''/'')
                     (REMOVING_TAGS @ [''br''])) BLOCK_TAGS"
  by code_simp

lemma block_not_removing_or_br:
  assumes "block_tags_re_match tag"
  shows "\<not> re_match_alts REMOVING_TAGS tag \<and> \<not> re_match_alts [''br''] tag"
proof -
  have "\<not> re_match_alts (REMOVING_TAGS @ [''br'']) tag"
  proof
    assume "re_match_alts (REMOVING_TAGS @ [''br'']) tag"
    then obtain q where q: "q \<in> set (REMOVING_TAGS @ [''br''])"
      and lq: "lower tag = q \<or> lower tag = q @ [CHR 0x0A]"
      using re_match_alts_lower by blast
    let ?t = "if take 1 tag = ''/'' then drop 1 tag else tag"
    from assms obtain p where p: "p \<in> set BLOCK_TAGS"
      and lp: "lower ?t = p \<or> lower ?t = p @ [CHR 0x0A]"
      unfolding block_tags_re_match_def using re_match_alts_lower by blast
    from p q block_names_apart
    have apart: "p \<noteq> q \<and> p @ [CHR 0x0A] \<noteq> q \<and> p \<noteq> q @ [CHR 0x0A] \<and> take 1 q \<noteq> ''/''"
      unfolding list_all_iff by blast
    show False
    proof (cases "take 1 tag = ''/''")
      case True
      then have "take 1 (lower tag) = ''/''"
        by (cases tag) (auto simp: lower_def lower_slash)
      moreover from apart have "q \<noteq> [] \<or> True" by simp
      ultimately show False using lq apart by (cases q) auto
    next
      case False
      with lp lq apart show False by auto
    qed
  qed
  then show ?thesis
    by (auto simp: re_match_alts_def)
qed


lemma match_tag_nonempty: "match_tag m = Some t \<Longrightarrow> t \<noteq> []"
  by (auto simp: match_tag_def lower_def split: option.splits if_splits)

lemma update_stack_ok:
  "t \<noteq> [] \<Longrightarrow> \<exists>stack'. update_preserve_whitespace_stack t attrs stack = Inr stack'"
  by (cases t) (auto simp: update_preserve_whitespace_stack_def Let_def)

text \<open>
  C7, as amended: outside a raw-text region, for a match whose tag is a block-level
  name or its closing form, the round of the loop appends the text before the match
  and then a newline if and only if the buffer is then not empty and does not end with
  a newline. On an empty buffer no newline is appended.
\<close>

theorem block_tag_newline:
  assumes "removing_until st = []" and "match_tag m = Some tag" and "block_tags_re_match tag"
  shows "\<exists>st'. html_to_text_step charref st (gap, m) = Inr st' \<and>
           text_buf st' =
             (let buf = text_buf st @ chunk_text charref st gap
              in if buf \<noteq> [] \<and> last buf \<noteq> CHR 0x0A then buf @ [CHR 0x0A] else buf)"
proof -
  let ?mid = "st\<lparr>text_buf := text_buf st @ chunk_text charref st gap\<rparr>"
  from block_not_removing_or_br [OF assms(3)] assms(3)
  have eff: "text_buf (tag_effect tag ?mid) =
               (let buf = text_buf st @ chunk_text charref st gap
                in if buf \<noteq> [] \<and> last buf \<noteq> CHR 0x0A then buf @ [CHR 0x0A] else buf)"
    by (simp add: tag_effect_def trailing_non_newline_def Let_def)
  from match_tag_nonempty [OF assms(2)] have ne: "tag \<noteq> []" .
  from update_stack_ok [OF ne] obtain stack' where
    u: "update_preserve_whitespace_stack tag (group2 m)
          (preserve_whitespace_stack (tag_effect tag ?mid)) = Inr stack'"
    by blast
  show ?thesis
    using assms(1,2) eff u
    by (auto simp: html_to_text_step_def Let_def)
qed

theorem block_tag_newline_witness:
  "\<exists>st'. html_to_text_step id
            \<lparr>text_buf = ''a'', removing_until = [], preserve_whitespace_stack = []\<rparr>
            (''b'', \<lparr>group0 = ''<div>'', group1 = Some ''div'', group2 = Some []\<rparr>) = Inr st' \<and>
         text_buf st' = [CHR ''a'', CHR ''b'', CHR 0x0A]"
proof -
  let ?idle = "\<lparr>text_buf = ''a'', removing_until = [], preserve_whitespace_stack = []\<rparr>"
  let ?div = "\<lparr>group0 = ''<div>'', group1 = Some ''div'', group2 = Some []\<rparr>"
  have h1: "removing_until ?idle = []" by simp
  have h2: "match_tag ?div = Some ''div''" by code_simp
  have h3: "block_tags_re_match ''div''" by code_simp
  have c: "chunk_text id ?idle ''b'' = ''b''" by code_simp
  from block_tag_newline [OF h1 h2 h3, of id "''b''"] c
  show ?thesis by simp
qed

text \<open>
  C7 as the specification states it fails on the empty buffer, which does not end with
  a newline: \<open>_TRAILING_NON_NEWLINE_RE\<close> needs a character to match, so \<open><p>\<close> at the
  start of the input appends nothing.
\<close>

theorem block_tag_newline_counterexample:
  "block_tags_re_match ''p'' \<and>
   html_to_text_step id
     \<lparr>text_buf = [], removing_until = [], preserve_whitespace_stack = []\<rparr>
     ([], \<lparr>group0 = ''<p>'', group1 = Some ''p'', group2 = Some []\<rparr>)
     = Inr \<lparr>text_buf = [], removing_until = [], preserve_whitespace_stack = [(''p'', False)]\<rparr> \<and>
   html_to_text id
     (PySanitized \<lparr>cls = SanitizedHtml, content = ''<p>x'', content_dir = None\<rparr>) = Inr ''x''"
  by code_simp





section \<open>Raw-text regions of html_to_text\<close>

lemma raw_text_enter:
  assumes "removing_until st = []" and "match_tag m = Some t" and "t \<in> set REMOVING_TAGS"
  shows "\<exists>st'. html_to_text_step charref st (gap, m) = Inr st' \<and>
           text_buf st' = text_buf st @ chunk_text charref st gap \<and>
           removing_until st' = ''/'' @ t"
proof -
  let ?mid = "st\<lparr>text_buf := text_buf st @ chunk_text charref st gap\<rparr>"
  from assms(3) have "re_match_alts REMOVING_TAGS t"
    using removing_tags_match by (simp add: list_all_iff)
  then have eff: "tag_effect t ?mid = ?mid\<lparr>removing_until := ''/'' @ t\<rparr>"
    by (simp add: tag_effect_def)
  from match_tag_nonempty [OF assms(2)] have ne: "t \<noteq> []" .
  from update_stack_ok [OF ne] obtain stack' where
    u: "update_preserve_whitespace_stack t (group2 m)
          (preserve_whitespace_stack (tag_effect t ?mid)) = Inr stack'"
    by blast
  show ?thesis
    using assms(1,2) eff u
    by (auto simp: html_to_text_step_def Let_def)
qed

lemma raw_text_round:
  assumes "removing_until st \<noteq> []"
  shows "html_to_text_step charref st gm =
           Inr (if match_tag (snd gm) = Some (removing_until st)
                then st\<lparr>removing_until := []\<rparr> else st)"
  using assms by (auto simp: html_to_text_step_def Let_def)

lemma raw_text_skip:
  assumes "removing_until st \<noteq> []"
    and "\<forall>gm \<in> set body. match_tag (snd gm) \<noteq> Some (removing_until st)"
  shows "html_to_text_loop charref st body = Inr st"
  using assms(2)
proof (induction body)
  case Nil
  show ?case by simp
next
  case (Cons gm body)
  then have "match_tag (snd gm) \<noteq> Some (removing_until st)" by simp
  with raw_text_round [OF assms(1), of charref gm]
  have "html_to_text_step charref st gm = Inr st" by simp
  with Cons show ?case by simp
qed

lemma html_to_text_loop_append:
  "html_to_text_loop charref st (xs @ ys) =
     (case html_to_text_loop charref st xs of
        Inl e \<Rightarrow> Inl e | Inr st' \<Rightarrow> html_to_text_loop charref st' ys)"
  by (induction xs arbitrary: st) (auto split: sum.splits)

text \<open>
  C6, as amended: \<open>html_to_text\<close> on the trusted HTML
  \<open><script>alert('<p>x</p>')</script>Done\<close> returns \<open>Done\<close>. In general, when the
  loop, outside a raw-text region, meets a match of the tag pattern named \<open>script\<close>,
  \<open>style\<close>, \<open>textarea\<close> or \<open>title\<close>, it appends the text before that match and
  opens a region; every match that follows, and the text before it, is discarded
  (the loop through all of them ends in the state it had on entry) as long as no match
  is named, in lower case, as the closing tag; and at the first match so named the loop
  goes on with what follows it, outside the region. The region ends at a match of the
  tag pattern only: a closing tag that the pattern reads as part of a longer tag,
  begun at an earlier \<open><\<close> of the body, does not end it.
\<close>

theorem html_to_text_raw_text_region:
  "html_to_text charref
     (PySanitized \<lparr>cls = SanitizedHtml, content = ''<script>alert('<p>x</p>')</script>Done'',
                   content_dir = d\<rparr>) = Inr ''Done'' \<and>
   (removing_until st = [] \<and> match_tag m = Some t \<and> t \<in> set REMOVING_TAGS \<and>
    (\<forall>gm \<in> set body. match_tag (snd gm) \<noteq> Some (''/'' @ t)) \<longrightarrow>
      (\<exists>st'. html_to_text_step charref st (gap, m) = Inr st' \<and>
             text_buf st' = text_buf st @ chunk_text charref st gap \<and>
             removing_until st' = ''/'' @ t \<and>
             html_to_text_loop charref st ((gap, m) # body) = Inr st' \<and>
             (match_tag m' = Some (''/'' @ t) \<longrightarrow>
                html_to_text_loop charref st ((gap, m) # body @ (gap', m') # post) =
                html_to_text_loop charref (st'\<lparr>removing_until := []\<rparr>) post)))"
proof (intro conjI impI)
  show "html_to_text charref
     (PySanitized \<lparr>cls = SanitizedHtml, content = ''<script>alert('<p>x</p>')</script>Done'',
                   content_dir = d\<rparr>) = Inr ''Done''"
    by code_simp
next
  assume a: "removing_until st = [] \<and> match_tag m = Some t \<and> t \<in> set REMOVING_TAGS \<and>
    (\<forall>gm \<in> set body. match_tag (snd gm) \<noteq> Some (''/'' @ t))"
  then have a1: "removing_until st = []" and a2: "match_tag m = Some t"
    and a3: "t \<in> set REMOVING_TAGS"
    and a4: "\<forall>gm \<in> set body. match_tag (snd gm) \<noteq> Some (''/'' @ t)"
    by blast+
  from raw_text_enter [OF a1 a2 a3, of charref gap] obtain st' where
    s: "html_to_text_step charref st (gap, m) = Inr st'"
    and t: "text_buf st' = text_buf st @ chunk_text charref st gap"
    and r: "removing_until st' = ''/'' @ t"
    by blast
  from r have ne: "removing_until st' \<noteq> []" by simp
  from a4 r have no: "\<forall>gm \<in> set body. match_tag (snd gm) \<noteq> Some (removing_until st')"
    by simp
  have skip: "html_to_text_loop charref st' body = Inr st'"
    using ne no by (rule raw_text_skip)
  have whole: "html_to_text_loop charref st ((gap, m) # body) = Inr st'"
    using s skip by simp
  have resume: "html_to_text_loop charref st ((gap, m) # body @ (gap', m') # post) =
                html_to_text_loop charref (st'\<lparr>removing_until := []\<rparr>) post"
    if c: "match_tag m' = Some (''/'' @ t)"
  proof -
    from c r have "match_tag (snd (gap', m')) = Some (removing_until st')" by simp
    with raw_text_round [OF ne, of charref "(gap', m')"]
    have cl: "html_to_text_step charref st' (gap', m') = Inr (st'\<lparr>removing_until := []\<rparr>)"
      by simp
    have "html_to_text_loop charref st' (body @ (gap', m') # post) =
            html_to_text_loop charref (st'\<lparr>removing_until := []\<rparr>) post"
      unfolding html_to_text_loop_append skip using cl by simp
    with s show ?thesis by simp
  qed
  from s t r whole resume
  show "\<exists>st'. html_to_text_step charref st (gap, m) = Inr st' \<and>
             text_buf st' = text_buf st @ chunk_text charref st gap \<and>
             removing_until st' = ''/'' @ t \<and>
             html_to_text_loop charref st ((gap, m) # body) = Inr st' \<and>
             (match_tag m' = Some (''/'' @ t) \<longrightarrow>
                html_to_text_loop charref st ((gap, m) # body @ (gap', m') # post) =
                html_to_text_loop charref (st'\<lparr>removing_until := []\<rparr>) post)"
    by blast
qed

theorem html_to_text_raw_text_region_witness:
  "html_to_text_loop id
     \<lparr>text_buf = ''a'', removing_until = [], preserve_whitespace_stack = []\<rparr>
     [(''b'', \<lparr>group0 = ''<script>'', group1 = Some ''script'', group2 = Some []\<rparr>),
      (''alert('', \<lparr>group0 = ''<p>'', group1 = Some ''p'', group2 = Some []\<rparr>),
      (''x'', \<lparr>group0 = ''</p>'', group1 = Some ''/p'', group2 = Some []\<rparr>)]
     = Inr \<lparr>text_buf = ''ab'', removing_until = ''/script'',
            preserve_whitespace_stack = [(''script'', False)]\<rparr> \<and>
   html_to_text_loop id
     \<lparr>text_buf = ''a'', removing_until = [], preserve_whitespace_stack = []\<rparr>
     [(''b'', \<lparr>group0 = ''<script>'', group1 = Some ''script'', group2 = Some []\<rparr>),
      (''alert('', \<lparr>group0 = ''<p>'', group1 = Some ''p'', group2 = Some []\<rparr>),
      (''x'', \<lparr>group0 = ''</p>'', group1 = Some ''/p'', group2 = Some []\<rparr>),
      ('')'', \<lparr>group0 = ''</SCRIPT>'', group1 = Some ''/SCRIPT'', group2 = Some []\<rparr>),
      (''Done'', \<lparr>group0 = [], group1 = None, group2 = None\<rparr>)]
     = Inr \<lparr>text_buf = ''abDone'', removing_until = [],
            preserve_whitespace_stack = [(''script'', False)]\<rparr>"
proof -
  let ?idle = "\<lparr>text_buf = ''a'', removing_until = [], preserve_whitespace_stack = []\<rparr>"
  let ?opening = "\<lparr>group0 = ''<script>'', group1 = Some ''script'', group2 = Some []\<rparr>"
  let ?closing = "\<lparr>group0 = ''</SCRIPT>'', group1 = Some ''/SCRIPT'', group2 = Some []\<rparr>"
  let ?body = "[(''alert('', \<lparr>group0 = ''<p>'', group1 = Some ''p'', group2 = Some []\<rparr>),
                (''x'', \<lparr>group0 = ''</p>'', group1 = Some ''/p'', group2 = Some []\<rparr>)]"
  let ?post = "[(''Done'', \<lparr>group0 = [], group1 = None, group2 = None\<rparr>)]"
  let ?raw = "\<lparr>text_buf = ''ab'', removing_until = ''/script'',
               preserve_whitespace_stack = [(''script'', False)]\<rparr>"
  have h1: "removing_until ?idle = []" by simp
  have h2: "match_tag ?opening = Some ''script''" by code_simp
  have h3: "''script'' \<in> set REMOVING_TAGS" by (simp add: REMOVING_TAGS_def)
  have h4: "\<forall>gm \<in> set ?body. match_tag (snd gm) \<noteq> Some (''/'' @ ''script'')"
    by code_simp
  have h5: "match_tag ?closing = Some (''/'' @ ''script'')" by code_simp
  from html_to_text_raw_text_region
         [of id None ?idle ?opening "''script''" ?body "''b''" ?closing "'')''" ?post]
       h1 h2 h3 h4 h5
  obtain st' where s: "html_to_text_step id ?idle (''b'', ?opening) = Inr st'"
    and w: "html_to_text_loop id ?idle ((''b'', ?opening) # ?body) = Inr st'"
    and r: "html_to_text_loop id ?idle ((''b'', ?opening) # ?body @ ('')'', ?closing) # ?post) =
            html_to_text_loop id (st'\<lparr>removing_until := []\<rparr>) ?post"
    by blast
  have "html_to_text_step id ?idle (''b'', ?opening) = Inr ?raw" by code_simp
  with s have st': "st' = ?raw" by simp
  have p: "html_to_text_loop id (?raw\<lparr>removing_until := []\<rparr>) ?post =
             Inr \<lparr>text_buf = ''abDone'', removing_until = [],
                  preserve_whitespace_stack = [(''script'', False)]\<rparr>"
    by code_simp
  from w r st' p show ?thesis by simp
qed

text \<open>
  C6 as the specification states it fails where the body holds a \<open><\<close> followed by
  a letter: in \<open><script>if(a<b)x()</script>Done\<close> the tag pattern matches
  \<open><b)x()</script>\<close> as one tag named \<open>b\<close>, no match is named \<open>/script\<close>, the region
  stays open to the end of the input, and the result is the empty string, not
  \<open>Done\<close>.
\<close>

theorem html_to_text_raw_text_region_counterexample:
  "tag_re_finditer [] ''<script>if(a<b)x()</script>Done'' =
     [([], \<lparr>group0 = ''<script>'', group1 = Some ''script'', group2 = Some []\<rparr>),
      (''if(a'', \<lparr>group0 = ''<b)x()</script>'', group1 = Some ''b'',
                  group2 = Some '')x()</script''\<rparr>),
      (''Done'', \<lparr>group0 = [], group1 = None, group2 = None\<rparr>)] \<and>
   html_to_text id
     (PySanitized \<lparr>cls = SanitizedHtml, content = ''<script>if(a<b)x()</script>Done'',
                   content_dir = None\<rparr>) = Inr []"
  by code_simp

section \<open>Idempotence of the whitelist filter\<close>

subsection \<open>Characters of tag names\<close>

lemma code_point_less: "code_point c < 256"
  unfolding code_point_def by (metis of_char_mod_256 mod_less_divisor zero_less_numeral)

lemma code_point_char_of: "n < 256 \<Longrightarrow> code_point (char_of n) = n"
  by (simp add: code_point_def)

lemma alpha_is_name_char: "is_ascii_alpha c \<Longrightarrow> is_name_char c"
  by (auto simp: is_ascii_alpha_def is_name_char_def is_word_char_def Let_def)

lemma lower_char_alpha: "is_ascii_alpha c \<Longrightarrow> is_ascii_alpha (lower_char c)"
  using code_point_less [of c]
  by (auto simp: is_ascii_alpha_def lower_char_def Let_def code_point_char_of)

lemma lower_char_word: "is_word_char c \<Longrightarrow> is_word_char (lower_char c)"
  using code_point_less [of c]
  by (auto simp: is_word_char_def lower_char_def Let_def code_point_char_of)

lemma lower_char_colon: "lower_char (CHR '':'') = CHR '':''" "lower_char (CHR ''-'') = CHR ''-''"
  by (simp_all add: lower_char_def code_point_def)

lemma lower_char_name: "is_name_char c \<Longrightarrow> is_name_char (lower_char c)"
  by (auto simp: is_name_char_def lower_char_word lower_char_colon)

lemma lower_char_idem: "lower_char (lower_char c) = lower_char c"
  using code_point_less [of c]
  by (auto simp: lower_char_def Let_def code_point_char_of)

lemma lower_idem: "lower (lower n) = lower n"
  by (simp add: lower_def lower_char_idem)

lemma wf_name_lower: "wf_name n \<Longrightarrow> wf_name (lower n)"
  by (cases n) (auto simp: wf_name_def lower_def lower_char_alpha lower_char_name list_all_iff)

lemma name_char_not_special:
  "is_name_char c \<Longrightarrow> c \<noteq> CHR ''<'' \<and> c \<noteq> CHR ''>'' \<and> c \<noteq> CHR ''['' \<and> c \<noteq> CHR ''/'' \<and> c \<noteq> CHR ''!''"
  by (auto simp: is_name_char_def is_word_char_def Let_def code_point_def)

lemma wf_name_chars: "wf_name n \<Longrightarrow> c \<in> set n \<Longrightarrow> is_name_char c"
  by (cases n) (auto simp: wf_name_def list_all_iff alpha_is_name_char)

lemma takeWhile_name_tail:
  assumes "list_all is_name_char xs"
  shows "takeWhile is_name_char (xs @ CHR ''>'' # rest) = xs"
    and "dropWhile is_name_char (xs @ CHR ''>'' # rest) = CHR ''>'' # rest"
  using assms name_char_not_special [of "CHR ''>''"]
  by (induction xs) auto

lemma scan_name_open:
  assumes "wf_name n"
  shows "scan_name (n @ CHR ''>'' # rest) = Some (n, CHR ''>'' # rest)"
proof -
  from assms obtain e xs where n: "n = e # xs" and e: "is_ascii_alpha e"
    and xs: "list_all is_name_char xs"
    by (cases n) (auto simp: wf_name_def)
  from e have "e \<noteq> CHR ''/''"
    using alpha_is_name_char name_char_not_special by blast
  with n e xs show ?thesis
    by (simp add: scan_name_def takeWhile_name_tail)
qed

lemma scan_name_close:
  assumes "wf_name n"
  shows "scan_name (CHR ''/'' # n @ CHR ''>'' # rest) = Some (CHR ''/'' # n, CHR ''>'' # rest)"
proof -
  from assms obtain e xs where n: "n = e # xs" and e: "is_ascii_alpha e"
    and xs: "list_all is_name_char xs"
    by (cases n) (auto simp: wf_name_def)
  with n e xs show ?thesis
    by (simp add: scan_name_def takeWhile_name_tail)
qed

lemma wf_name_hd:
  assumes "wf_name n"
  shows "hd n \<noteq> CHR ''!'' \<and> hd n \<noteq> CHR ''/'' \<and> n \<noteq> []"
  using assms alpha_is_name_char name_char_not_special
  by (auto simp: wf_name_def)

lemma match_open_tag:
  assumes "wf_name n"
  shows "html_tag_regex_match_at (''<'' @ n @ ''>'' @ rest) =
           Some (\<lparr>group0 = ''<'' @ n @ ''>'', group1 = Some n, group2 = Some []\<rparr>, rest)"
proof -
  from wf_name_hd [OF assms] obtain e xs where n: "n = e # xs"
    and e: "e \<noteq> CHR ''!''" "e \<noteq> CHR ''/''"
    by (cases n) auto
  have c: "tag_re_comment (n @ CHR ''>'' # rest) = None"
    using n e by (simp add: tag_re_comment_def)
  have m: "tag_re_markup (n @ CHR ''>'' # rest) =
             Some (\<lparr>group0 = ''<'' @ n @ ''>'', group1 = Some n, group2 = Some []\<rparr>, rest)"
    using scan_name_open [OF assms, of rest] n e
    by (simp add: tag_re_markup_def)
  have t: "tag_re_match_at (CHR ''<'' # n @ CHR ''>'' # rest) =
             Some (\<lparr>group0 = ''<'' @ n @ ''>'', group1 = Some n, group2 = Some []\<rparr>, rest)"
    by (simp add: tag_re_match_at_def c m)
  have h: "take 1 n \<noteq> ''/''"
    using n e by simp
  show ?thesis
    using h by (simp add: html_tag_regex_match_at_def t)
qed

lemma match_close_tag:
  assumes "wf_name n"
  shows "html_tag_regex_match_at (''</'' @ n @ ''>'' @ rest) =
           Some (\<lparr>group0 = ''</'' @ n @ ''>'', group1 = Some n, group2 = Some []\<rparr>, rest)"
proof -
  from wf_name_hd [OF assms] obtain e xs where n: "n = e # xs"
    and e: "e \<noteq> CHR ''!''" "e \<noteq> CHR ''/''"
    by (cases n) auto
  have c: "tag_re_comment (CHR ''/'' # n @ CHR ''>'' # rest) = None"
    by (simp add: tag_re_comment_def)
  have m: "tag_re_markup (CHR ''/'' # n @ CHR ''>'' # rest) =
             Some (\<lparr>group0 = ''</'' @ n @ ''>'', group1 = Some (CHR ''/'' # n),
                    group2 = Some []\<rparr>, rest)"
    using scan_name_close [OF assms, of rest]
    by (simp add: tag_re_markup_def)
  have t: "tag_re_match_at (CHR ''<'' # CHR ''/'' # n @ CHR ''>'' # rest) =
             Some (\<lparr>group0 = ''</'' @ n @ ''>'', group1 = Some (CHR ''/'' # n),
                    group2 = Some []\<rparr>, rest)"
    by (simp add: tag_re_match_at_def c m)
  show ?thesis
    by (simp add: html_tag_regex_match_at_def t)
qed

lemma match_none_unless_lt: "c \<noteq> CHR ''<'' \<Longrightarrow> html_tag_regex_match_at (c # r) = None"
  by (simp add: html_tag_regex_match_at_def tag_re_match_at_def)

lemma scan_name_wf:
  assumes "scan_name r = Some (n', r')"
  shows "wf_name (if take 1 n' = ''/'' then drop 1 n' else n')"
  using assms alpha_is_name_char name_char_not_special
  by (auto simp: scan_name_def wf_name_def list_all_iff split: list.splits if_splits
           dest: set_takeWhileD)

lemma html_tag_regex_match_at_facts:
  assumes "html_tag_regex_match_at s = Some (m, rest)"
  shows "s = group0 m @ rest"
    and "2 \<le> length (group0 m)"
    and "group1 m = Some n \<Longrightarrow> wf_name n"
proof -
  from assms obtain m0 where t: "tag_re_match_at s = Some (m0, rest)" and s: "s \<noteq> []"
    and g0: "group0 m = group0 m0"
    and g1: "group1 m = (case group1 m0 of None \<Rightarrow> None
                | Some n \<Rightarrow> Some (if take 1 n = ''/'' then drop 1 n else n))"
    by (auto simp: html_tag_regex_match_at_def split: list.splits option.splits)
  from tag_re_match_at_split [OF t] g0 show "s = group0 m @ rest" by simp
  from t s obtain r where r: "s = CHR ''<'' # r"
    and alt: "tag_re_comment r = Some (m0, rest) \<or> tag_re_markup r = Some (m0, rest)"
    by (auto simp: tag_re_match_at_def split: list.splits if_splits option.splits)
  from alt show "2 \<le> length (group0 m)"
    unfolding g0
    by (auto simp: tag_re_comment_def tag_re_markup_def
             split: list.splits if_splits option.splits)
  show "wf_name n" if "group1 m = Some n"
  proof -
    from that g1 obtain n' where n': "group1 m0 = Some n'"
      and n: "n = (if take 1 n' = ''/'' then drop 1 n' else n')"
      by (auto split: option.splits)
    from alt n' obtain r' where "scan_name r = Some (n', r')"
      by (auto simp: tag_re_comment_def tag_re_markup_def
               split: list.splits if_splits option.splits)
    from scan_name_wf [OF this] n show ?thesis by simp
  qed
qed

lemma flat_simps [simp]:
  "flat [] = []" "flat (Txt x # ps) = x @ flat ps" "flat (Tok t # ps) = t @ flat ps"
  "flat (ps @ qs) = flat ps @ flat qs"
  by (simp_all add: flat_def)

lemma toks_append [simp]: "toks (ps @ qs) = toks ps @ toks qs"
  by (induction ps rule: toks.induct) auto

lemma sub_Nil: "html_tag_regex_sub wl tags [] = Inr ([], tags)"
  by (simp add: html_tag_regex_sub.simps)

lemma sub_nomatch:
  "html_tag_regex_match_at (c # cs) = None \<Longrightarrow>
   html_tag_regex_sub wl tags (c # cs) =
     (case html_tag_regex_sub wl tags cs of
        Inl e \<Rightarrow> Inl e | Inr (out, tags') \<Rightarrow> Inr (c # out, tags'))"
  by (subst html_tag_regex_sub.simps) simp

lemma sub_match:
  assumes "html_tag_regex_match_at s = Some (m, rest)"
  shows "html_tag_regex_sub wl tags s =
     (case tag_sub_handler wl tags m of
        Inl e \<Rightarrow> Inl e
      | Inr (repl, tags1) \<Rightarrow>
          (case html_tag_regex_sub wl tags1 rest of
             Inl e \<Rightarrow> Inl e | Inr (out, tags') \<Rightarrow> Inr (repl @ out, tags')))"
proof -
  from assms have "s \<noteq> []"
    by (auto simp: html_tag_regex_match_at_def)
  then obtain c cs where "s = c # cs" by (cases s) auto
  with assms show ?thesis
    by (subst html_tag_regex_sub.simps) simp
qed

lemma sub_text:
  assumes "CHR ''<'' \<notin> set x"
  shows "html_tag_regex_sub wl tags (x @ r) =
     (case html_tag_regex_sub wl tags r of
        Inl e \<Rightarrow> Inl e | Inr (out, tags') \<Rightarrow> Inr (x @ out, tags'))"
  using assms
proof (induction x)
  case Nil
  show ?case by (simp split: sum.splits)
next
  case (Cons c x)
  then have "c \<noteq> CHR ''<''" by auto
  then have "html_tag_regex_match_at (c # x @ r) = None"
    by (rule match_none_unless_lt)
  from sub_nomatch [OF this] Cons show ?case
    by (simp split: sum.splits)
qed

lemma wf_tok_cases:
  assumes "wf_tok wl t"
  obtains n where "n \<in> set wl" "wf_name n" "lower n = n"
    "t = ''<'' @ n @ ''>'' \<or> t = ''</'' @ n @ ''>''"
  using assms by (auto simp: wf_tok_def list_ex_iff)

lemma handler_open:
  assumes "n \<in> set wl" "wf_name n" "lower n = n"
  shows "tag_sub_handler wl tags \<lparr>group0 = ''<'' @ n @ ''>'', group1 = Some n, group2 = g\<rparr> =
           Inr (''['' @ format_d (length tags) @ '']'', tags @ [''<'' @ n @ ''>''])"
proof -
  from wf_name_hd [OF assms(2)] obtain e xs where n: "n = e # xs" and e: "e \<noteq> CHR ''/''"
    by (cases n) auto
  have i: "(''<'' @ n @ ''>'') ! 1 \<noteq> CHR ''/''" using n e by simp
  have l: "\<not> length (''<'' @ n @ ''>'') < 2" by simp
  have ne: "n \<noteq> []" using n by simp
  show ?thesis
    unfolding tag_sub_handler_def Let_def using i l ne assms(1,3)
    by (simp del: append.simps)
qed

lemma handler_close:
  assumes "n \<in> set wl" "wf_name n" "lower n = n"
  shows "tag_sub_handler wl tags \<lparr>group0 = ''</'' @ n @ ''>'', group1 = Some n, group2 = g\<rparr> =
           Inr (''['' @ format_d (length tags) @ '']'', tags @ [''</'' @ n @ ''>''])"
proof -
  have i: "(''</'' @ n @ ''>'') ! 1 = CHR ''/''" by simp
  have l: "\<not> length (''</'' @ n @ ''>'') < 2" by simp
  have ne: "n \<noteq> []" using assms(2) by (simp add: wf_name_def)
  show ?thesis
    unfolding tag_sub_handler_def Let_def using i l ne assms(1,3)
    by (simp del: append.simps)
qed

lemma sub_token:
  assumes "wf_tok wl t"
  shows "html_tag_regex_sub wl tags (t @ r) =
     (case html_tag_regex_sub wl (tags @ [t]) r of
        Inl e \<Rightarrow> Inl e
      | Inr (out, tags') \<Rightarrow> Inr (''['' @ format_d (length tags) @ '']'' @ out, tags'))"
proof -
  from assms obtain n where n: "n \<in> set wl" "wf_name n" "lower n = n"
    and t: "t = ''<'' @ n @ ''>'' \<or> t = ''</'' @ n @ ''>''"
    by (rule wf_tok_cases)
  from t show ?thesis
  proof
    assume o: "t = ''<'' @ n @ ''>''"
    have "html_tag_regex_sub wl tags ((''<'' @ n @ ''>'') @ r) =
      (case html_tag_regex_sub wl (tags @ [''<'' @ n @ ''>'']) r of
        Inl e \<Rightarrow> Inl e
      | Inr (out, tags') \<Rightarrow> Inr (''['' @ format_d (length tags) @ '']'' @ out, tags'))"
      using sub_match [OF match_open_tag [OF n(2), of r], of wl tags] handler_open [OF n, of tags]
      by (simp split: sum.splits)
    with o show ?thesis by simp
  next
    assume c: "t = ''</'' @ n @ ''>''"
    have "html_tag_regex_sub wl tags ((''</'' @ n @ ''>'') @ r) =
      (case html_tag_regex_sub wl (tags @ [''</'' @ n @ ''>'']) r of
        Inl e \<Rightarrow> Inl e
      | Inr (out, tags') \<Rightarrow> Inr (''['' @ format_d (length tags) @ '']'' @ out, tags'))"
      using sub_match [OF match_close_tag [OF n(2), of r], of wl tags] handler_close [OF n, of tags]
      by (simp split: sum.splits)
    with c show ?thesis by simp
  qed
qed

lemma sub_canonical:
  assumes "canonical wl ps"
  shows "html_tag_regex_sub wl tags (flat ps) = Inr (render_ph (length tags) ps, tags @ toks ps)"
  using assms
proof (induction ps arbitrary: tags)
  case Nil
  show ?case by (simp add: sub_Nil)
next
  case (Cons p ps)
  from Cons.prems have c: "canonical wl ps" by (simp add: canonical_def)
  show ?case
  proof (cases p)
    case (Txt x)
    with Cons.prems have "CHR ''<'' \<notin> set x" by (simp add: canonical_def)
    from sub_text [OF this, of wl tags "flat ps"] Cons.IH [OF c, of tags] Txt
    show ?thesis by simp
  next
    case (Tok t)
    with Cons.prems have "wf_tok wl t" by (simp add: canonical_def)
    from sub_token [OF this, of tags "flat ps"] Cons.IH [OF c, of "tags @ [t]"] Tok
    show ?thesis by simp
  qed
qed

lemma handler_cases:
  assumes "html_tag_regex_match_at s = Some (m, rest)"
  shows "tag_sub_handler wl tags m = Inr ([], tags) \<or>
         (\<exists>t. wf_tok wl t \<and>
              tag_sub_handler wl tags m =
                Inr (''['' @ format_d (length tags) @ '']'', tags @ [t]))"
proof (cases "group1 m")
  case None
  then show ?thesis by (simp add: tag_sub_handler_def)
next
  case (Some n)
  from html_tag_regex_match_at_facts(3) [OF assms Some] have wf: "wf_name n" .
  then have ne: "n \<noteq> []" by (simp add: wf_name_def)
  from html_tag_regex_match_at_facts(2) [OF assms] have l: "\<not> length (group0 m) < 2" by simp
  show ?thesis
  proof (cases "lower n \<in> set wl")
    case False
    with Some ne show ?thesis by (simp add: tag_sub_handler_def)
  next
    case True
    let ?t = "(if group0 m ! 1 = CHR ''/'' then ''</'' else ''<'') @ lower n @ ''>''"
    have "wf_tok wl ?t"
      unfolding wf_tok_def list_ex_iff
      using True wf_name_lower [OF wf] lower_idem [of n] by (intro bexI [of _ "lower n"]) auto
    moreover have "tag_sub_handler wl tags m =
                Inr (''['' @ format_d (length tags) @ '']'', tags @ [?t])"
      using Some ne True l by (simp add: tag_sub_handler_def Let_def)
    ultimately show ?thesis by blast
  qed
qed

lemma sourced_mono: "sourced wl s ps \<Longrightarrow> set s \<subseteq> set s' \<Longrightarrow> sourced wl s' ps"
  by (induction ps) (auto simp: sourced_def split: piece.splits)

lemma sub_pieces:
  "\<exists>ps. html_tag_regex_sub wl tags s = Inr (render_ph (length tags) ps, tags @ toks ps) \<and>
        sourced wl s ps"
proof (induction s arbitrary: tags rule: length_induct)
  case (1 s)
  show ?case
  proof (cases s)
    case Nil
    have "html_tag_regex_sub wl tags [] = Inr (render_ph (length tags) [], tags @ toks []) \<and>
          sourced wl [] []"
      by (simp add: sub_Nil sourced_def)
    with Nil show ?thesis by blast
  next
    case (Cons c cs)
    show ?thesis
    proof (cases "html_tag_regex_match_at s")
      case None
      from "1.IH" Cons obtain ps where
        ps: "html_tag_regex_sub wl tags cs = Inr (render_ph (length tags) ps, tags @ toks ps)"
        and src: "sourced wl cs ps"
        by (metis length_Cons lessI)
      from None Cons sub_nomatch ps
      have "html_tag_regex_sub wl tags s =
              Inr (render_ph (length tags) (Txt [c] # ps), tags @ toks (Txt [c] # ps))"
        by simp
      moreover have "sourced wl s (Txt [c] # ps)"
        using sourced_mono [OF src, of s] Cons by (auto simp: sourced_def)
      ultimately show ?thesis by blast
    next
      case (Some mr)
      then obtain m rest where m: "html_tag_regex_match_at s = Some (m, rest)"
        by (cases mr) auto
      from html_tag_regex_match_at_length [OF m] have len: "length rest < length s" .
      from html_tag_regex_match_at_facts(1) [OF m] have sub: "set rest \<subseteq> set s"
        by (metis set_append sup_ge2)
      from handler_cases [OF m, of wl tags] show ?thesis
      proof
        assume h: "tag_sub_handler wl tags m = Inr ([], tags)"
        from "1.IH" len obtain ps where
          ps: "html_tag_regex_sub wl tags rest = Inr (render_ph (length tags) ps, tags @ toks ps)"
          and src: "sourced wl rest ps"
          by blast
        from sub_match [OF m, of wl tags] h ps
        have "html_tag_regex_sub wl tags s = Inr (render_ph (length tags) ps, tags @ toks ps)"
          by simp
        with sourced_mono [OF src sub] show ?thesis by blast
      next
        assume "\<exists>t. wf_tok wl t \<and>
              tag_sub_handler wl tags m =
                Inr (''['' @ format_d (length tags) @ '']'', tags @ [t])"
        then obtain t where t: "wf_tok wl t"
          and h: "tag_sub_handler wl tags m =
                Inr (''['' @ format_d (length tags) @ '']'', tags @ [t])"
          by blast
        from "1.IH" len obtain ps where
          ps: "html_tag_regex_sub wl (tags @ [t]) rest =
                 Inr (render_ph (length (tags @ [t])) ps, (tags @ [t]) @ toks ps)"
          and src: "sourced wl rest ps"
          by blast
        from sub_match [OF m, of wl tags] h ps
        have "html_tag_regex_sub wl tags s =
                Inr (render_ph (length tags) (Tok t # ps), tags @ toks (Tok t # ps))"
          by simp
        moreover have "sourced wl s (Tok t # ps)"
          using sourced_mono [OF src sub] t by (simp add: sourced_def)
        ultimately show ?thesis by blast
      qed
    qed
  qed
qed

lemma is_digit_char_of: "(n::nat) < 10 \<Longrightarrow> is_digit (char_of (48 + n))"
  by (simp add: is_digit_def code_point_char_of)

lemma format_d_digits: "list_all is_digit (format_d k)"
proof (induction k rule: format_d.induct)
  case (1 n)
  show ?case
  proof (cases "n < 10")
    case True
    then show ?thesis by (subst format_d.simps) (simp add: is_digit_char_of)
  next
    case False
    with 1 show ?thesis by (subst format_d.simps) (simp add: is_digit_char_of)
  qed
qed

lemma format_d_nonempty: "format_d k \<noteq> []"
  by (subst format_d.simps) simp

lemma py_int_snoc: "py_int (xs @ [c]) = 10 * py_int xs + (code_point c - 48)"
  by (simp add: py_int_def)

lemma py_int_format_d: "py_int (format_d k) = k"
proof (induction k rule: format_d.induct)
  case (1 n)
  show ?case
  proof (cases "n < 10")
    case True
    then show ?thesis
      by (subst format_d.simps) (simp add: py_int_def code_point_char_of)
  next
    case False
    then have "n mod 10 < 10" by simp
    then have "code_point (char_of (48 + n mod 10)) = 48 + n mod 10"
      by (intro code_point_char_of) simp
    with 1 False show ?thesis
      by (subst format_d.simps) (simp add: py_int_snoc)
  qed
qed

lemma normalize_append:
  "normalize_html_helper esc (a @ b) = normalize_html_helper esc a @ normalize_html_helper esc b"
  by (simp add: normalize_html_helper_def)

lemma normalize_fixed:
  "\<forall>c \<in> set x. esc c = [c] \<Longrightarrow> normalize_html_helper esc x = x"
  by (induction x) (auto simp: normalize_html_helper_def)

lemma normalize_placeholder:
  assumes "esc (CHR ''['') = ''[''" "esc (CHR '']'') = '']''" "\<forall>c. is_digit c \<longrightarrow> esc c = [c]"
  shows "normalize_html_helper esc (''['' @ format_d k @ '']'') = ''['' @ format_d k @ '']''"
proof -
  have "\<forall>c \<in> set (''['' @ format_d k @ '']''). esc c = [c]"
    using assms format_d_digits [of k] by (auto simp: list_all_iff)
  then show ?thesis by (rule normalize_fixed)
qed

lemma normalize_render_ph:
  assumes "esc (CHR ''['') = ''[''" "esc (CHR '']'') = '']''" "\<forall>c. is_digit c \<longrightarrow> esc c = [c]"
  shows "normalize_html_helper esc (render_ph k ps) =
           render_ph k (map (map_txt (normalize_html_helper esc)) ps)"
proof (induction k ps rule: render_ph.induct)
  case (1 k)
  show ?case by (simp add: normalize_html_helper_def)
next
  case (2 k x ps)
  then show ?case by (simp add: normalize_append)
next
  case (3 k t ps)
  have "normalize_html_helper esc ((''['' @ format_d k @ '']'') @ render_ph (Suc k) ps) =
          normalize_html_helper esc (''['' @ format_d k @ '']'') @
          normalize_html_helper esc (render_ph (Suc k) ps)"
    by (rule normalize_append)
  also have "\<dots> = (''['' @ format_d k @ '']'') @
          normalize_html_helper esc (render_ph (Suc k) ps)"
    by (simp only: normalize_placeholder [OF assms])
  finally show ?case using 3 by simp
qed

lemma toks_map_txt [simp]: "toks (map (map_txt f) ps) = toks ps"
  by (induction ps rule: toks.induct) auto

lemma repl_Nil: "replacement_tag_re_sub tags [] = Inr []"
  by (simp add: replacement_tag_re_sub.simps)

lemma repl_nomatch:
  assumes "c \<noteq> CHR ''[''"
  shows "replacement_tag_re_sub tags (c # cs) =
     (case replacement_tag_re_sub tags cs of Inl e \<Rightarrow> Inl e | Inr out \<Rightarrow> Inr (c # out))"
proof -
  from assms have "replacement_tag_re_match_at (c # cs) = None"
    by (simp add: replacement_tag_re_match_at_def)
  then show ?thesis by (subst replacement_tag_re_sub.simps) simp
qed

lemma takeWhile_digits:
  assumes "list_all is_digit ds"
  shows "takeWhile is_digit (ds @ CHR '']'' # r) = ds"
    and "dropWhile is_digit (ds @ CHR '']'' # r) = CHR '']'' # r"
proof -
  have n: "\<not> is_digit (CHR '']'')" by (simp add: is_digit_def code_point_def)
  from assms n show "takeWhile is_digit (ds @ CHR '']'' # r) = ds"
    by (induction ds) auto
  from assms n show "dropWhile is_digit (ds @ CHR '']'' # r) = CHR '']'' # r"
    by (induction ds) auto
qed

lemma repl_placeholder:
  "replacement_tag_re_sub tags (''['' @ format_d k @ '']'' @ r) =
     (if k < length tags then
        (case replacement_tag_re_sub tags r of
           Inl e \<Rightarrow> Inl e | Inr out \<Rightarrow> Inr (tags ! k @ out))
      else Inl IndexError)"
proof -
  have "replacement_tag_re_match_at (CHR ''['' # format_d k @ CHR '']'' # r) = Some (format_d k, r)"
    using takeWhile_digits [OF format_d_digits, of k r] format_d_nonempty [of k]
    by (simp add: replacement_tag_re_match_at_def)
  then show ?thesis
    by (subst replacement_tag_re_sub.simps) (simp add: py_int_format_d split: sum.splits)
qed

lemma repl_text:
  assumes "CHR ''['' \<notin> set x"
  shows "replacement_tag_re_sub tags (x @ r) =
     (case replacement_tag_re_sub tags r of Inl e \<Rightarrow> Inl e | Inr out \<Rightarrow> Inr (x @ out))"
  using assms
proof (induction x)
  case Nil
  show ?case by (simp split: sum.splits)
next
  case (Cons c x)
  then have "c \<noteq> CHR ''[''" by auto
  from repl_nomatch [OF this, of tags "x @ r"] Cons show ?case
    by (simp split: sum.splits)
qed

lemma repl_render:
  assumes "bracket_free ps" and "k + length (toks ps) \<le> length tags"
  shows "replacement_tag_re_sub tags (render_ph k ps) = Inr (fill (drop k tags) ps)"
  using assms
proof (induction ps arbitrary: k)
  case Nil
  show ?case by (simp add: repl_Nil)
next
  case (Cons p ps)
  from Cons.prems(1) have bf: "bracket_free ps" by (simp add: bracket_free_def)
  show ?case
  proof (cases p)
    case (Txt x)
    with Cons.prems have x: "CHR ''['' \<notin> set x" and l: "k + length (toks ps) \<le> length tags"
      by (simp_all add: bracket_free_def)
    from repl_text [OF x, of tags "render_ph k ps"] Cons.IH [OF bf l] Txt
    show ?thesis by simp
  next
    case (Tok t)
    with Cons.prems have l: "Suc k + length (toks ps) \<le> length tags" and k: "k < length tags"
      by simp_all
    from k have d: "drop k tags = tags ! k # drop (Suc k) tags"
      by (simp add: Cons_nth_drop_Suc)
    from repl_placeholder [of tags k "render_ph (Suc k) ps"] Cons.IH [OF bf l] Tok k d
    show ?thesis by simp
  qed
qed

lemma fill_toks: "fill (toks ps @ r) ps = flat ps"
  by (induction ps rule: toks.induct) auto

lemma balance_loop_flat:
  assumes "list_all (\<lambda>t. 2 \<le> length t) tags"
  shows "balance_loop ot tags =
           Inr (map concat (fst (balance_flat ot tags)), snd (balance_flat ot tags))"
  using assms
proof (induction tags arbitrary: ot)
  case Nil
  show ?case by simp
next
  case (Cons tag tags)
  then have l: "\<not> length tag < 2" and r: "list_all (\<lambda>t. 2 \<le> length t) tags"
    by simp_all
  note ih = Cons.IH [OF r]
  show ?case
    using l by (simp add: ih with_tag_def balance_step_def split: option.splits)
qed

lemma balance_flat_length: "length (fst (balance_flat ot tags)) = length tags"
  by (induction tags arbitrary: ot) auto

lemma balance_flat_append:
  "balance_flat ot (xs @ ys) =
     (fst (balance_flat ot xs) @ fst (balance_flat (snd (balance_flat ot xs)) ys),
      snd (balance_flat (snd (balance_flat ot xs)) ys))"
  by (induction xs arbitrary: ot) auto

lemma search_found: "search_open_tags ot tag n = Some i \<Longrightarrow> i < n"
  by (induction n) (auto split: if_splits)

lemma balance_step_top:
  assumes "is_closer c"
  shows "balance_step (a @ [c]) c = ([c], a)"
  using assms by (simp add: balance_step_def is_closer_def)

lemma close_run:
  assumes "list_all is_closer b"
  shows "balance_flat (a @ b) (rev b @ rest) =
           (map (\<lambda>t. [t]) (rev b) @ fst (balance_flat a rest), snd (balance_flat a rest))"
  using assms
proof (induction b rule: rev_induct)
  case Nil
  show ?case by simp
next
  case (snoc c b)
  then have c: "is_closer c" and b: "list_all is_closer b" by simp_all
  have s: "balance_step ((a @ b) @ [c]) c = ([c], a @ b)"
    using c by (rule balance_step_top)
  show ?case
    using snoc.IH [OF b] s by simp
qed

lemma balance_step_closers:
  assumes "list_all is_closer ot"
  shows "list_all is_closer (snd (balance_step ot tag))"
  using assms
  by (auto simp: balance_step_def is_closer_def list_all_iff split: option.splits
           dest: in_set_takeD)

lemma balance_flat_closers:
  assumes "list_all is_closer ot"
  shows "list_all is_closer (snd (balance_flat ot tags))"
  using assms
  by (induction tags arbitrary: ot) (auto simp: balance_step_closers)

lemma step_replay:
  assumes "list_all is_closer ot"
  shows "balance_flat ot (fst (balance_step ot tag) @ rest) =
           (map (\<lambda>t. [t]) (fst (balance_step ot tag)) @
              fst (balance_flat (snd (balance_step ot tag)) rest),
            snd (balance_flat (snd (balance_step ot tag)) rest))"
proof (cases "tag ! 1 = CHR ''/''")
  case True
  show ?thesis
  proof (cases "search_open_tags ot tag (length ot)")
    case None
    with True show ?thesis by (simp add: balance_step_def)
  next
    case (Some i)
    from search_found [OF Some] have i: "i < length ot" .
    from assms have d: "list_all is_closer (drop i ot)"
      by (auto simp: list_all_iff dest: in_set_dropD)
    from close_run [OF d, of "take i ot" rest] True Some
    show ?thesis by (simp add: balance_step_def)
  qed
next
  case False
  then show ?thesis by (simp add: balance_step_def)
qed

lemma balance_flat_replay:
  assumes "list_all is_closer ot"
  shows "balance_flat ot (concat (fst (balance_flat ot tags)) @ rest) =
           (map (\<lambda>t. [t]) (concat (fst (balance_flat ot tags))) @
              fst (balance_flat (snd (balance_flat ot tags)) rest),
            snd (balance_flat (snd (balance_flat ot tags)) rest))"
  using assms
proof (induction tags arbitrary: ot)
  case Nil
  show ?case by simp
next
  case (Cons tag tags)
  note c1 = balance_step_closers [OF Cons.prems, of tag]
  from step_replay [OF Cons.prems, of tag] Cons.IH [OF c1]
  show ?case by simp
qed

lemma balance_flat_idem:
  "balance_flat [] (concat (fst (balance_flat [] tags)) @ rev (snd (balance_flat [] tags))) =
     (map (\<lambda>t. [t]) (concat (fst (balance_flat [] tags)) @ rev (snd (balance_flat [] tags))), [])"
proof -
  let ?F = "fst (balance_flat [] tags)" and ?o = "snd (balance_flat [] tags)"
  have c: "list_all is_closer ?o"
    by (rule balance_flat_closers) simp
  have r: "balance_flat ?o (rev ?o) = (map (\<lambda>t. [t]) (rev ?o), [])"
    using close_run [OF c, of "[]" "[]"] by simp
  have "balance_flat [] (concat ?F @ rev ?o) =
          (map (\<lambda>t. [t]) (concat ?F) @ fst (balance_flat ?o (rev ?o)),
           snd (balance_flat ?o (rev ?o)))"
    by (rule balance_flat_replay) simp
  with r show ?thesis by simp
qed

lemma wf_tok_length: "wf_tok wl t \<Longrightarrow> 2 \<le> length t"
  by (auto simp: wf_tok_def list_ex_iff)

lemma wf_tok_pushed:
  assumes "wf_tok wl t" and "t ! 1 \<noteq> CHR ''/''"
  shows "wf_tok wl (''</'' @ drop 1 t)"
proof -
  from assms(1) obtain n where n: "n \<in> set wl" "wf_name n" "lower n = n"
    and t: "t = ''<'' @ n @ ''>'' \<or> t = ''</'' @ n @ ''>''"
    by (rule wf_tok_cases)
  from t assms(2) have "t = ''<'' @ n @ ''>''" by auto
  then have "''</'' @ drop 1 t = ''</'' @ n @ ''>''" by simp
  with n show ?thesis by (auto simp: wf_tok_def list_ex_iff)
qed

lemma balance_step_wf:
  assumes "wf_tok wl tag" and "list_all (wf_tok wl) ot"
  shows "list_all (wf_tok wl) (fst (balance_step ot tag)) \<and>
         list_all (wf_tok wl) (snd (balance_step ot tag))"
  using assms wf_tok_pushed [OF assms(1)]
  by (auto simp: balance_step_def list_all_iff split: option.splits
           dest: in_set_takeD in_set_dropD)

lemma balance_flat_wf:
  assumes "list_all (wf_tok wl) tags" and "list_all (wf_tok wl) ot"
  shows "list_all (list_all (wf_tok wl)) (fst (balance_flat ot tags)) \<and>
         list_all (wf_tok wl) (snd (balance_flat ot tags))"
  using assms
proof (induction tags arbitrary: ot)
  case Nil
  then show ?case by simp
next
  case (Cons tag tags)
  then have t: "wf_tok wl tag" and r: "list_all (wf_tok wl) tags" by simp_all
  from balance_step_wf [OF t Cons.prems(2)] Cons.IH [OF r]
  show ?case by simp
qed

lemma flat_map_Tok [simp]: "flat (map Tok f) = concat f"
  by (induction f) auto

lemma toks_map_Tok [simp]: "toks (map Tok f) = f"
  by (induction f) auto

lemma flat_expand: "flat (expand F ps) = fill (map concat F) ps"
  by (induction F ps rule: expand.induct) (auto split: list.splits)

lemma toks_expand: "length F = length (toks ps) \<Longrightarrow> toks (expand F ps) = concat F"
  by (induction F ps rule: expand.induct) (auto split: list.splits)

lemma canonical_expand:
  assumes "list_all (list_all (wf_tok wl)) F" and "lt_free ps"
  shows "canonical wl (expand F ps)"
  using assms
  by (induction F ps rule: expand.induct)
     (auto simp: canonical_def lt_free_def list_all_iff split: list.splits)

lemma bracket_free_expand:
  assumes "bracket_free ps"
  shows "bracket_free (expand F ps)"
  using assms
  by (induction F ps rule: expand.induct)
     (auto simp: bracket_free_def list_all_iff split: list.splits)

lemma fixed_txt_expand:
  assumes "fixed_txt esc ps"
  shows "fixed_txt esc (expand F ps)"
  using assms
  by (induction F ps rule: expand.induct)
     (auto simp: fixed_txt_def list_all_iff split: list.splits)

lemma fixed_txt_map: "fixed_txt esc ps \<Longrightarrow> map (map_txt (normalize_html_helper esc)) ps = ps"
  by (induction ps) (auto simp: fixed_txt_def split: piece.splits)

lemma wf_tok_no_bracket: "wf_tok wl t \<Longrightarrow> CHR ''['' \<notin> set t"
  using wf_name_chars name_char_not_special
  by (auto simp: wf_tok_def list_ex_iff) blast+

lemma flat_no_bracket:
  assumes "bracket_free ps" and "list_all (wf_tok wl) (toks ps)"
  shows "CHR ''['' \<notin> set (flat ps)"
  using assms
proof (induction ps rule: toks.induct)
  case 1
  show ?case by simp
next
  case (2 x ps)
  then show ?case by (simp add: bracket_free_def)
next
  case (3 t ps)
  then show ?case using wf_tok_no_bracket [of wl t] by (simp add: bracket_free_def)
qed

lemma escape_brackets_free: "CHR ''['' \<notin> set (escape_brackets s)"
  by (induction s) (auto simp: escape_brackets_def)

lemma escape_brackets_id: "CHR ''['' \<notin> set s \<Longrightarrow> escape_brackets s = s"
  by (induction s) (auto simp: escape_brackets_def)

lemma strip_whitelist_eq:
  assumes "wl \<noteq> []"
    and "html_tag_regex_sub wl [] (escape_brackets s) = Inr (h1, tags)"
    and "balance_tags tags = Inr (tags', fc)"
    and "replacement_tag_re_sub tags' (normalize_html_helper esc h1) = Inr h3"
  shows "strip_html_tags esc (PyStr s) wl = Inr (h3 @ fc)"
  using assms by (simp add: strip_html_tags_def escape_brackets_def)

lemma sourced_toks: "sourced wl s ps \<Longrightarrow> list_all (wf_tok wl) (toks ps)"
  by (induction ps rule: toks.induct) (auto simp: sourced_def)

lemma normalize_set:
  "set (normalize_html_helper esc x) = (\<Union>c \<in> set x. set (esc c))"
  by (simp add: normalize_html_helper_def)

lemma delete_no_lt: "CHR ''<'' \<notin> set s \<Longrightarrow> html_tag_regex_delete s = s"
proof (induction s)
  case Nil
  show ?case by (simp add: html_tag_regex_delete.simps)
next
  case (Cons c s)
  then have "c \<noteq> CHR ''<''" by auto
  then have "html_tag_regex_match_at (c # s) = None" by (rule match_none_unless_lt)
  with Cons show ?case by (subst html_tag_regex_delete.simps) simp
qed

lemma lt_regex_sub_free: "CHR ''<'' \<notin> set (lt_regex_sub s)"
  by (induction s) (auto simp: lt_regex_sub_def)

lemma lt_regex_sub_id: "CHR ''<'' \<notin> set s \<Longrightarrow> lt_regex_sub s = s"
  by (induction s) (auto simp: lt_regex_sub_def)

lemma strip_no_whitelist_idem:
  "strip_html_tags esc (PyStr s) [] = Inr (lt_regex_sub (html_tag_regex_delete s)) \<and>
   strip_html_tags esc (PyStr (lt_regex_sub (html_tag_regex_delete s))) [] =
     Inr (lt_regex_sub (html_tag_regex_delete s))"
  using lt_regex_sub_free [of "html_tag_regex_delete s"]
  by (simp add: strip_html_tags_def delete_no_lt lt_regex_sub_id)

lemma bracket_free_append: "bracket_free (a @ b) = (bracket_free a \<and> bracket_free b)"
  by (simp add: bracket_free_def)

lemma bracket_free_Toks: "bracket_free (map Tok ts)"
  by (induction ts) (simp_all add: bracket_free_def)

lemma fixed_txt_append: "fixed_txt esc (a @ b) = (fixed_txt esc a \<and> fixed_txt esc b)"
  by (simp add: fixed_txt_def)

lemma fixed_txt_Toks: "fixed_txt esc (map Tok ts)"
  by (induction ts) (simp_all add: fixed_txt_def)

lemma map_txt_all:
  assumes "sourced wl s0 ps" and "\<And>x. set x \<subseteq> set s0 \<Longrightarrow> P (f x)"
  shows "list_all (\<lambda>p. case p of Txt x \<Rightarrow> P x | Tok t \<Rightarrow> True) (map (map_txt f) ps)"
  using assms(1)
proof (induction ps)
  case Nil
  show ?case by simp
next
  case (Cons p ps)
  then have r: "sourced wl s0 ps" by (simp add: sourced_def)
  show ?case
  proof (cases p)
    case (Txt x)
    with Cons.prems have "set x \<subseteq> set s0" by (simp add: sourced_def)
    from assms(2) [OF this] Cons.IH [OF r] Txt show ?thesis by simp
  next
    case (Tok t)
    with Cons.IH [OF r] show ?thesis by simp
  qed
qed

lemma strip_whitelist_idem:
  assumes wl: "wl \<noteq> []"
    and E1: "\<forall>c. CHR ''<'' \<notin> set (esc c)"
    and E2: "\<forall>c. c \<noteq> CHR ''['' \<longrightarrow> CHR ''['' \<notin> set (esc c)"
    and E3: "\<forall>c. c = CHR ''['' \<or> c = CHR '']'' \<or> is_digit c \<longrightarrow> esc c = [c]"
    and E4: "\<forall>c. \<forall>d \<in> set (esc c). esc d = [d]"
  shows "\<exists>out. strip_html_tags esc (PyStr s) wl = Inr out \<and>
               strip_html_tags esc (PyStr out) wl = Inr out"
proof -
  from E3 have e3: "esc (CHR ''['') = ''[''" "esc (CHR '']'') = '']''"
    "\<forall>c. is_digit c \<longrightarrow> esc c = [c]"
    by simp_all
  define nrm where "nrm = normalize_html_helper esc"
  obtain ps where sub1: "html_tag_regex_sub wl [] (escape_brackets s) = Inr (render_ph 0 ps, toks ps)"
    and src: "sourced wl (escape_brackets s) ps"
    using sub_pieces [of wl "[]" "escape_brackets s"] by auto
  define ps' where "ps' = map (map_txt nrm) ps"
  define F where "F = fst (balance_flat [] (toks ps))"
  define otf where "otf = snd (balance_flat [] (toks ps))"
  define Q where "Q = expand F ps' @ map Tok (rev otf)"
  have wft: "list_all (wf_tok wl) (toks ps)"
    using src by (rule sourced_toks)
  have len2: "list_all (\<lambda>t. 2 \<le> length t) (toks ps)"
    using wft wf_tok_length by (auto simp: list_all_iff)
  have n1: "nrm (render_ph 0 ps) = render_ph 0 ps'"
    unfolding nrm_def ps'_def by (rule normalize_render_ph [OF e3])
  have bal1: "balance_tags (toks ps) = Inr (map concat F, concat (rev otf))"
    unfolding balance_tags_def balance_loop_flat [OF len2] F_def otf_def by simp
  have escd: "CHR ''['' \<notin> set (nrm x) \<and> CHR ''<'' \<notin> set (nrm x) \<and> nrm (nrm x) = nrm x"
    if "set x \<subseteq> set (escape_brackets s)" for x
  proof -
    from that escape_brackets_free [of s] have nx: "CHR ''['' \<notin> set x" by blast
    have mem: "\<exists>c \<in> set x. d \<in> set (esc c)" if "d \<in> set (nrm x)" for d
      using that unfolding nrm_def normalize_set by blast
    have a: "CHR ''['' \<notin> set (nrm x)"
    proof
      assume "CHR ''['' \<in> set (nrm x)"
      from mem [OF this] obtain c where c: "c \<in> set x" "CHR ''['' \<in> set (esc c)" by blast
      from c(1) nx have "c \<noteq> CHR ''[''" by blast
      with E2 c(2) show False by blast
    qed
    have b: "CHR ''<'' \<notin> set (nrm x)"
    proof
      assume "CHR ''<'' \<in> set (nrm x)"
      from mem [OF this] E1 show False by blast
    qed
    have "\<forall>d \<in> set (nrm x). esc d = [d]"
      using mem E4 by blast
    then have "nrm (nrm x) = nrm x"
      unfolding nrm_def by (rule normalize_fixed)
    with a b show ?thesis by simp
  qed
  have bf': "bracket_free ps'"
    unfolding ps'_def bracket_free_def by (rule map_txt_all [OF src]) (use escd in blast)
  have lf': "lt_free ps'"
    unfolding ps'_def lt_free_def by (rule map_txt_all [OF src]) (use escd in blast)
  have fx': "fixed_txt esc ps'"
    unfolding ps'_def fixed_txt_def nrm_def [symmetric] by (rule map_txt_all [OF src]) (use escd in blast)
  have tk': "toks ps' = toks ps" by (simp add: ps'_def)
  have lenF: "length F = length (toks ps')"
    by (simp add: F_def balance_flat_length tk')
  have rep1: "replacement_tag_re_sub (map concat F) (render_ph 0 ps') = Inr (fill (map concat F) ps')"
    using repl_render [OF bf', of 0 "map concat F"] lenF by simp
  have flatQ: "flat Q = fill (map concat F) ps' @ concat (rev otf)"
    by (simp add: Q_def flat_expand)
  have run1: "strip_html_tags esc (PyStr s) wl = Inr (flat Q)"
    using strip_whitelist_eq [OF wl sub1 bal1, of esc "fill (map concat F) ps'"] rep1 n1 flatQ
    by (simp add: nrm_def)
  have wfF: "list_all (list_all (wf_tok wl)) F" and wfo: "list_all (wf_tok wl) otf"
    using balance_flat_wf [OF wft, of "[]"] by (simp_all add: F_def otf_def)
  have canQ: "canonical wl Q"
    using canonical_expand [OF wfF lf'] wfo
    by (simp add: Q_def canonical_def list.pred_map comp_def)
  have bfQ: "bracket_free Q"
    using bracket_free_expand [OF bf', of F]
    by (simp add: Q_def bracket_free_append bracket_free_Toks)
  have fxQ: "fixed_txt esc Q"
    using fixed_txt_expand [OF fx', of F]
    by (simp add: Q_def fixed_txt_append fixed_txt_Toks)
  have tkQ: "toks Q = concat F @ rev otf"
    by (simp add: Q_def toks_expand [OF lenF])
  have wfQ: "list_all (wf_tok wl) (toks Q)"
    using wfF wfo by (auto simp: tkQ list_all_iff)
  have nb: "CHR ''['' \<notin> set (flat Q)"
    using bfQ wfQ by (rule flat_no_bracket)
  have sub2: "html_tag_regex_sub wl [] (escape_brackets (flat Q)) = Inr (render_ph 0 Q, toks Q)"
    using sub_canonical [OF canQ, of "[]"] by (simp add: escape_brackets_id [OF nb])
  have n2: "nrm (render_ph 0 Q) = render_ph 0 Q"
    unfolding nrm_def normalize_render_ph [OF e3] fixed_txt_map [OF fxQ] ..
  have len2Q: "list_all (\<lambda>t. 2 \<le> length t) (toks Q)"
    using wfQ wf_tok_length by (auto simp: list_all_iff)
  have idem: "balance_flat [] (toks Q) = (map (\<lambda>t. [t]) (toks Q), [])"
    unfolding tkQ F_def otf_def by (rule balance_flat_idem)
  have single: "map concat (map (\<lambda>t. [t]) xs) = xs" for xs :: "string list"
    by (induction xs) auto
  have bal2: "balance_tags (toks Q) = Inr (toks Q, [])"
    unfolding balance_tags_def balance_loop_flat [OF len2Q] idem by (simp add: comp_def)
  have rep2: "replacement_tag_re_sub (toks Q) (render_ph 0 Q) = Inr (flat Q)"
    using repl_render [OF bfQ, of 0 "toks Q"] fill_toks [of Q "[]"] by simp
  have run2: "strip_html_tags esc (PyStr (flat Q)) wl = Inr (flat Q)"
    using strip_whitelist_eq [OF wl sub2 bal2, of esc "flat Q"] rep2 n2
    by (simp add: nrm_def)
  from run1 run2 show ?thesis by blast
qed

lemma lt_gt_escape_table:
  "\<forall>c. CHR ''<'' \<notin> set (lt_gt_escape c)"
  "\<forall>c. c \<noteq> CHR ''['' \<longrightarrow> CHR ''['' \<notin> set (lt_gt_escape c)"
  "\<forall>c. c = CHR ''['' \<or> c = CHR '']'' \<or> is_digit c \<longrightarrow> lt_gt_escape c = [c]"
  "\<forall>c. \<forall>d \<in> set (lt_gt_escape c). lt_gt_escape d = [d]"
  by (auto simp: lt_gt_escape_def is_digit_def code_point_def)

text \<open>
  C5: the whitelist filter applied to its own output, with the same whitelist, returns
  that output; both runs return a string. The escape table of \<open>normalize_html_helper\<close>
  is any table that writes no \<open><\<close>, writes \<open>[\<close> only for \<open>[\<close>, leaves the characters
  of the placeholders as they are, and leaves as they are the characters it writes.
\<close>

theorem strip_html_tags_idempotent:
  assumes "\<forall>c. CHR ''<'' \<notin> set (esc c)"
    and "\<forall>c. c \<noteq> CHR ''['' \<longrightarrow> CHR ''['' \<notin> set (esc c)"
    and "\<forall>c. c = CHR ''['' \<or> c = CHR '']'' \<or> is_digit c \<longrightarrow> esc c = [c]"
    and "\<forall>c. \<forall>d \<in> set (esc c). esc d = [d]"
  shows "\<exists>out. strip_html_tags esc (PyStr s) wl = Inr out \<and>
               strip_html_tags esc (PyStr out) wl = Inr out"
proof (cases "wl = []")
  case True
  with strip_no_whitelist_idem [of esc s] show ?thesis by blast
next
  case False
  from strip_whitelist_idem [OF False assms] show ?thesis .
qed

theorem strip_html_tags_idempotent_witness:
  "strip_html_tags lt_gt_escape (PyStr ''<b>a<i>b</b>c [1] < d</td>'') [''b'', ''i'']
     = Inr ''<b>a<i>b</i></b>c &#91;1] &lt; d'' \<and>
   strip_html_tags lt_gt_escape (PyStr ''<b>a<i>b</i></b>c &#91;1] &lt; d'') [''b'', ''i'']
     = Inr ''<b>a<i>b</i></b>c &#91;1] &lt; d''"
proof -
  from strip_html_tags_idempotent [OF lt_gt_escape_table, of "''<b>a<i>b</b>c [1] < d</td>''" "[''b'', ''i'']"]
  obtain out where
    1: "strip_html_tags lt_gt_escape (PyStr ''<b>a<i>b</b>c [1] < d</td>'') [''b'', ''i''] = Inr out"
    and 2: "strip_html_tags lt_gt_escape (PyStr out) [''b'', ''i''] = Inr out"
    by blast
  have "strip_html_tags lt_gt_escape (PyStr ''<b>a<i>b</b>c [1] < d</td>'') [''b'', ''i'']
          = Inr ''<b>a<i>b</i></b>c &#91;1] &lt; d''"
    by code_simp
  with 1 have "out = ''<b>a<i>b</i></b>c &#91;1] &lt; d''" by simp
  with 1 2 show ?thesis by simp
qed

end
